theory Spec2Isabelle
  imports Complex_Main "HOL-Library.Product_Lexorder" "HOL-Library.Log_Nat"
begin

section \<open>The calendar store and the exponential scheduler of \<^verbatim>\<open>calendar_manager.py\<close>\<close>

text \<open>
  The development embeds the class \<^verbatim>\<open>CalendarManager\<close>: its in-memory
  \<^verbatim>\<open>OrderedDict\<close> from dates to event lists, the JSON file it rewrites after each
  mutation, and the four public operations \<^verbatim>\<open>add_event\<close>, \<^verbatim>\<open>show_events\<close>,
  \<^verbatim>\<open>cut_events_before_date\<close> and \<^verbatim>\<open>add_multiple\<close>.

  Python strings are modelled as \<^typ>\<open>string\<close> (lists of 8-bit characters, among
  which the decimal digits are exactly \<^verbatim>\<open>0\<close> to \<^verbatim>\<open>9\<close>), Python's unbounded integers
  as \<^typ>\<open>int\<close>, its floats as the binary64 values of IEEE 754. Every method takes the manager and returns it with its result, so that
  what a call changes, in memory and in the file, is what the returned manager differs in.
  Exceptions are values of the type \<open>error\<close>. Failures of the file system while reading
  or writing the database file are not part of the model.
\<close>

subsection \<open>The part of Python's \<^verbatim>\<open>datetime\<close> that the class uses\<close>

text \<open>
  A \<^verbatim>\<open>datetime.date\<close> holds a year, a month and a day and compares as the tuple
  \<^verbatim>\<open>(year, month, day)\<close>; the lexicographic order on products is that comparison.
  The arithmetic follows the reference implementation of the module
  (\<^verbatim>\<open>_is_leap\<close>, \<^verbatim>\<open>_days_before_year\<close>, \<^verbatim>\<open>_days_in_month\<close>, \<^verbatim>\<open>_days_before_month\<close>,
  \<^verbatim>\<open>_ymd2ord\<close>, \<^verbatim>\<open>_ord2ymd\<close>).
\<close>

type_synonym date = "int \<times> int \<times> int"

datatype error = ValueError | KeyError | OverflowError

definition MINYEAR :: int where "MINYEAR = 1"
definition MAXYEAR :: int where "MAXYEAR = 9999"
definition MAXORDINAL :: int where "MAXORDINAL = 3652059"

definition is_leap :: "int \<Rightarrow> bool" where
  "is_leap year \<longleftrightarrow> year mod 4 = 0 \<and> (year mod 100 \<noteq> 0 \<or> year mod 400 = 0)"

definition days_before_year :: "int \<Rightarrow> int" where
  "days_before_year year = (let y = year - 1 in y * 365 + y div 4 - y div 100 + y div 400)"

definition DAYS_IN_MONTH :: "int list" where
  "DAYS_IN_MONTH = [-1, 31, 28, 31, 30, 31, 30, 31, 31, 30, 31, 30, 31]"

definition DAYS_BEFORE_MONTH :: "int list" where
  "DAYS_BEFORE_MONTH = [-1, 0, 31, 59, 90, 120, 151, 181, 212, 243, 273, 304, 334]"

definition days_in_month :: "int \<Rightarrow> int \<Rightarrow> int" where
  "days_in_month year month =
     (if month = 2 \<and> is_leap year then 29 else DAYS_IN_MONTH ! nat month)"

definition days_before_month :: "int \<Rightarrow> int \<Rightarrow> int" where
  "days_before_month year month =
     DAYS_BEFORE_MONTH ! nat month + (if month > 2 \<and> is_leap year then 1 else 0)"

text \<open>The constructor of \<^verbatim>\<open>date\<close> accepts exactly these field values (and raises
  \<^verbatim>\<open>ValueError\<close> on all others).\<close>

definition valid_date :: "date \<Rightarrow> bool" where
  "valid_date dt = (case dt of (year, month, day) \<Rightarrow>
     MINYEAR \<le> year \<and> year \<le> MAXYEAR \<and> 1 \<le> month \<and> month \<le> 12 \<and>
     1 \<le> day \<and> day \<le> days_in_month year month)"

definition toordinal :: "date \<Rightarrow> int" where
  "toordinal dt = (case dt of (year, month, day) \<Rightarrow>
     days_before_year year + days_before_month year month + day)"

definition DI400Y :: int where "DI400Y = 146097"
definition DI100Y :: int where "DI100Y = 36524"
definition DI4Y :: int where "DI4Y = 1461"

text \<open>
  \<^verbatim>\<open>_ord2ymd\<close>, in two parts: \<open>month_day\<close> is its tail, which finds the month and
  the day from the index \<open>n\<close> of the day in its year (an estimate of the month that is
  either right or one too high, then the correction).
\<close>

definition month_day :: "int \<Rightarrow> bool \<Rightarrow> int \<times> int" where
  "month_day n leapyear =
     (let month = (n + 50) div 32;
          preceding = DAYS_BEFORE_MONTH ! nat month + (if month > 2 \<and> leapyear then 1 else 0)
      in if preceding > n
         then let month = month - 1;
                  preceding = preceding -
                    (DAYS_IN_MONTH ! nat month + (if month = 2 \<and> leapyear then 1 else 0))
              in (month, n - preceding + 1)
         else (month, n - preceding + 1))"

definition fromordinal :: "int \<Rightarrow> date" where
  "fromordinal n0 =
    (let n = n0 - 1;
         n400 = n div DI400Y; n = n mod DI400Y;
         year = n400 * 400 + 1;
         n100 = n div DI100Y; n = n mod DI100Y;
         n4 = n div DI4Y; n = n mod DI4Y;
         n1 = n div 365; n = n mod 365;
         year = year + n100 * 100 + n4 * 4 + n1
     in if n1 = 4 \<or> n100 = 4 then (year - 1, 12, 31)
        else
          let leapyear = (n1 = 3 \<and> (n4 \<noteq> 24 \<or> n100 = 3))
          in (case month_day n leapyear of (month, day) \<Rightarrow> (year, month, day)))"

text \<open>
  \<^verbatim>\<open>d + timedelta(days=k)\<close>: building the \<^verbatim>\<open>timedelta\<close> raises \<^verbatim>\<open>OverflowError\<close> when
  \<open>k\<close> has magnitude above 999999999, and the addition raises it when the resulting
  ordinal leaves \<open>1 .. MAXORDINAL\<close>.
\<close>

definition date_add_days :: "date \<Rightarrow> int \<Rightarrow> error + date" where
  "date_add_days dt k =
     (if \<bar>k\<bar> > 999999999 then Inl OverflowError
      else let o' = toordinal dt + k
           in if 0 < o' \<and> o' \<le> MAXORDINAL then Inr (fromordinal o') else Inl OverflowError)"

text \<open>
  \<^verbatim>\<open>date.isoformat()\<close> is \<^verbatim>\<open>"%04d-%02d-%02d" % (year, month, day)\<close>. The fields of a
  \<^verbatim>\<open>date\<close> lie in \<open>1 .. 9999\<close>, \<open>1 .. 12\<close> and \<open>1 .. 31\<close>, where the three
  conversions produce exactly four, two and two decimal digits.
\<close>

definition digit_chr :: "int \<Rightarrow> char" where
  "digit_chr n = ''0123456789'' ! nat n"

definition is_digit :: "char \<Rightarrow> bool" where
  "is_digit c \<longleftrightarrow> c \<in> set ''0123456789''"

definition digit_val :: "char \<Rightarrow> int" where
  "digit_val c = int (of_char c) - 48"

definition fmt04 :: "int \<Rightarrow> string" where
  "fmt04 n = [digit_chr (n div 1000), digit_chr (n div 100 mod 10),
              digit_chr (n div 10 mod 10), digit_chr (n mod 10)]"

definition fmt02 :: "int \<Rightarrow> string" where
  "fmt02 n = [digit_chr (n div 10), digit_chr (n mod 10)]"

definition isoformat :: "date \<Rightarrow> string" where
  "isoformat dt = (case dt of (year, month, day) \<Rightarrow>
     fmt04 year @ ''-'' @ fmt02 month @ ''-'' @ fmt02 day)"

text \<open>
  \<^verbatim>\<open>datetime.strptime(s, '%Y-%m-%d').date()\<close>. The format compiles to the regular
  expression
  \<^verbatim>\<open>(\d\d\d\d)-(1[0-2]|0[1-9]|[1-9])-(3[0-1]|[1-2]\d|0[1-9]|[1-9]| [1-9])\<close>,
  which is matched at the start of the string; input left over after the match, a
  failed match, and field values that are no date all raise \<^verbatim>\<open>ValueError\<close> (the result
  \<open>None\<close> here). The alternatives are tried in the order written. After the month
  the expression needs a hyphen, and no alternative for the month can end before a digit
  that a longer one would have taken, so taking the first alternative that matches is
  what the backtracking matcher finds.
\<close>

definition re_month :: "string \<Rightarrow> (int \<times> string) option" where
  "re_month s = (case s of
       [] \<Rightarrow> None
     | a # r \<Rightarrow>
        (case r of
           [] \<Rightarrow> if a \<in> set ''123456789'' then Some (digit_val a, r) else None
         | b # r' \<Rightarrow>
            if a = CHR ''1'' \<and> b \<in> set ''012'' then Some (10 + digit_val b, r')
            else if a = CHR ''0'' \<and> b \<in> set ''123456789'' then Some (digit_val b, r')
            else if a \<in> set ''123456789'' then Some (digit_val a, r)
            else None))"

definition re_day :: "string \<Rightarrow> (int \<times> string) option" where
  "re_day s = (case s of
       [] \<Rightarrow> None
     | a # r \<Rightarrow>
        (case r of
           [] \<Rightarrow> if a \<in> set ''123456789'' then Some (digit_val a, r) else None
         | b # r' \<Rightarrow>
            if a = CHR ''3'' \<and> b \<in> set ''01'' then Some (30 + digit_val b, r')
            else if a \<in> set ''12'' \<and> is_digit b then Some (10 * digit_val a + digit_val b, r')
            else if a = CHR ''0'' \<and> b \<in> set ''123456789'' then Some (digit_val b, r')
            else if a \<in> set ''123456789'' then Some (digit_val a, r)
            else if a = CHR '' '' \<and> b \<in> set ''123456789'' then Some (digit_val b, r')
            else None))"

definition re_year :: "string \<Rightarrow> (int \<times> string) option" where
  "re_year s = (case s of
       a # b # c # d # r \<Rightarrow>
         if is_digit a \<and> is_digit b \<and> is_digit c \<and> is_digit d
         then Some (1000 * digit_val a + 100 * digit_val b + 10 * digit_val c + digit_val d, r)
         else None
     | _ \<Rightarrow> None)"

definition expect_hyphen :: "string \<Rightarrow> string option" where
  "expect_hyphen s = (case s of [] \<Rightarrow> None | c # r \<Rightarrow> if c = CHR ''-'' then Some r else None)"

definition strptime_date :: "string \<Rightarrow> date option" where
  "strptime_date s =
     (case re_year s of None \<Rightarrow> None | Some (year, s1) \<Rightarrow>
      case expect_hyphen s1 of None \<Rightarrow> None | Some s2 \<Rightarrow>
      case re_month s2 of None \<Rightarrow> None | Some (month, s3) \<Rightarrow>
      case expect_hyphen s3 of None \<Rightarrow> None | Some s4 \<Rightarrow>
      case re_day s4 of None \<Rightarrow> None | Some (day, s5) \<Rightarrow>
        if s5 = [] \<and> valid_date (year, month, day) then Some (year, month, day) else None)"

subsection \<open>Python's numbers: the gap and the growth factor\<close>

text \<open>
  The gap between two dates of \<^verbatim>\<open>add_multiple\<close> starts as the integer \<^verbatim>\<open>1\<close> and is
  multiplied by \<^verbatim>\<open>exponent_base\<close> in every iteration. The docstring of the method calls
  \<^verbatim>\<open>exponent_base\<close> an integer; the bot (\<^verbatim>\<open>topic_bot.py\<close>) always passes a float. A number is
  therefore an unbounded integer or a float, and a float is a binary64 value: a finite one
  is given by the rational number it denotes (the sign of a zero is dropped, nothing here
  depends on it), the others are the two infinities and NaN.
\<close>

datatype pyfloat = Finite rat | PosInf | NegInf | NaN

datatype number = PyInt int | PyFloat pyfloat

text \<open>Rounding a rational to the nearest integer, a tie to the even one.\<close>

definition round_half_even :: "rat \<Rightarrow> int" where
  "round_half_even x =
     (let f = \<lfloor>x\<rfloor>; r = x - of_int f
      in if r < 1 / 2 then f else if 1 / 2 < r then f + 1 else if even f then f else f + 1)"

text \<open>
  The binary exponent of a positive rational \<open>a\<close>, the integer \<open>e\<close> with
  \<open>2 ^ e \<le> a < 2 ^ (e + 1)\<close>; \<^const>\<open>bitlen\<close> is the number of binary digits of a positive
  integer.
\<close>

definition floor_log2 :: "rat \<Rightarrow> int" where
  "floor_log2 a = (if 1 \<le> a then bitlen \<lfloor>a\<rfloor> - 1 else - bitlen (\<lceil>1 / a\<rceil> - 1))"

text \<open>
  The binary64 value of an exact result, rounded to nearest with ties to even: 53
  significant binary digits, the exponent from \<open>- 1022\<close> (below which the spacing of the
  values stays \<open>2 ^ - 1074\<close>) to \<open>1023\<close>, and an infinity for a result that rounds to
  \<open>2 ^ 1024\<close> or more.
\<close>

definition round_double :: "rat \<Rightarrow> pyfloat" where
  "round_double x =
     (if x = 0 then Finite 0
      else let a = \<bar>x\<bar>;
               e = max (floor_log2 a) (- 1022)
           in if 1024 \<le> e then (if 0 < x then PosInf else NegInf)
              else let q = power_int 2 (e - 52);
                       m = round_half_even (a / q)
                   in if e = 1023 \<and> m = 2 ^ 53 then (if 0 < x then PosInf else NegInf)
                      else Finite (if 0 < x then of_int m * q else - (of_int m * q)))"

definition float_sign :: "pyfloat \<Rightarrow> int" where
  "float_sign f =
     (case f of
        Finite x \<Rightarrow> (if 0 < x then 1 else if x < 0 then - 1 else 0)
      | PosInf \<Rightarrow> 1
      | NegInf \<Rightarrow> - 1
      | NaN \<Rightarrow> 0)"

text \<open>
  The product of two floats: the rounded exact product of two finite values; with an
  infinity among the factors, the infinity of the sign of the product, and NaN when the
  other factor is zero or NaN.
\<close>

definition float_mul :: "pyfloat \<Rightarrow> pyfloat \<Rightarrow> pyfloat" where
  "float_mul f g =
     (case (f, g) of
        (Finite x, Finite y) \<Rightarrow> round_double (x * y)
      | _ \<Rightarrow> if float_sign f * float_sign g = 0 then NaN
             else if 0 < float_sign f * float_sign g then PosInf else NegInf)"

text \<open>
  The conversion of an operand to float, which raises \<^verbatim>\<open>OverflowError\<close> for an integer
  too large for a float.
\<close>

definition to_float :: "number \<Rightarrow> error + pyfloat" where
  "to_float n =
     (case n of
        PyFloat f \<Rightarrow> Inr f
      | PyInt k \<Rightarrow> (case round_double (of_int k) of
                     Finite x \<Rightarrow> Inr (Finite x)
                   | _ \<Rightarrow> Inl OverflowError))"

text \<open>
  \<^verbatim>\<open>a * b\<close>: the exact product of two integers, and the float product of the operands
  converted to float otherwise.
\<close>

definition py_mul :: "number \<Rightarrow> number \<Rightarrow> error + number" where
  "py_mul a b =
     (case (a, b) of
        (PyInt i, PyInt j) \<Rightarrow> Inr (PyInt (i * j))
      | _ \<Rightarrow> (case to_float a of
                Inl e \<Rightarrow> Inl e
              | Inr f \<Rightarrow> (case to_float b of
                           Inl e \<Rightarrow> Inl e
                         | Inr g \<Rightarrow> Inr (PyFloat (float_mul f g)))))"

text \<open>The comparison \<^verbatim>\<open>n >= 1\<close>, which is exact between integers and floats.\<close>

definition num_ge_1 :: "number \<Rightarrow> bool" where
  "num_ge_1 n =
     (case n of
        PyInt k \<Rightarrow> 1 \<le> k
      | PyFloat f \<Rightarrow> (case f of Finite x \<Rightarrow> 1 \<le> x | PosInf \<Rightarrow> True | NegInf \<Rightarrow> False
                     | NaN \<Rightarrow> False))"

text \<open>
  The field \<^verbatim>\<open>days\<close> of \<^verbatim>\<open>timedelta(days=n)\<close>, as the reference implementation of
  the constructor computes it. An integer is taken as it is. A float is
  split into its integral and its fractional part; the fractional part is multiplied, in
  floating point, by the number of microseconds of a day; the sum of the microseconds of
  both parts is rounded to the nearest integer, a tie to the even one, and the days are
  its quotient by the microseconds of a day, rounded down. NaN raises \<^verbatim>\<open>ValueError\<close> and
  an infinity \<^verbatim>\<open>OverflowError\<close>, as does a number of days of magnitude above 999999999.
  So \<^verbatim>\<open>timedelta(days=2.25)\<close> has 2 days (and 6 hours, which the addition to a
  \<^verbatim>\<open>date\<close> ignores).
\<close>

definition US_PER_DAY :: int where "US_PER_DAY = 86400000000"

definition timedelta_days :: "number \<Rightarrow> error + int" where
  "timedelta_days n =
     (case n of
        PyInt k \<Rightarrow> if \<bar>k\<bar> > 999999999 then Inl OverflowError else Inr k
      | PyFloat f \<Rightarrow>
         (case f of
            NaN \<Rightarrow> Inl ValueError
          | PosInf \<Rightarrow> Inl OverflowError
          | NegInf \<Rightarrow> Inl OverflowError
          | Finite g \<Rightarrow>
              (let intpart = (if 0 \<le> g then \<lfloor>g\<rfloor> else \<lceil>g\<rceil>);
                   fracpart = g - of_int intpart
               in case round_double (of_int US_PER_DAY * fracpart) of
                    Finite d \<Rightarrow>
                      (let us = round_half_even (of_int (intpart * US_PER_DAY) + d);
                           days = us div US_PER_DAY
                       in if \<bar>days\<bar> > 999999999 then Inl OverflowError else Inr days)
                  | _ \<Rightarrow> Inl OverflowError)))"

text \<open>
  \<^verbatim>\<open>d + timedelta(days=n)\<close> for a number \<open>n\<close>: the \<^verbatim>\<open>timedelta\<close> is built first, then its
  days are added to the date.
\<close>

definition date_add_timedelta :: "date \<Rightarrow> number \<Rightarrow> error + date" where
  "date_add_timedelta dt n =
     (case timedelta_days n of
        Inl e \<Rightarrow> Inl e
      | Inr days \<Rightarrow> date_add_days dt days)"

subsection \<open>The store\<close>

text \<open>
  \<^verbatim>\<open>self.calendar_db\<close> is an \<^verbatim>\<open>OrderedDict\<close>: an association list in insertion order
  whose keys are distinct. The field \<open>db_file\<close> is the contents of the file at the path
  \<^verbatim>\<open>self.db_file\<close>: the dictionary that \<^verbatim>\<open>json.load\<close> reads from it and \<^verbatim>\<open>json.dump\<close>
  writes to it, from date strings to lists of event strings, and \<open>None\<close> while the file
  does not exist. The listed operations are those of Python's dictionaries: assigning to
  an existing key keeps its position, assigning to a new key appends it, deleting removes
  the entry.
\<close>

type_synonym event = string
type_synonym calendar = "(date \<times> event list) list"
type_synonym json_db = "(string \<times> event list) list"

record manager =
  calendar_db :: calendar
  db_file :: "json_db option"

fun od_set :: "('k \<times> 'v) list \<Rightarrow> 'k \<Rightarrow> 'v \<Rightarrow> ('k \<times> 'v) list" where
  "od_set [] k v = [(k, v)]"
| "od_set (p # ps) k v = (if fst p = k then (k, v) # ps else p # od_set ps k v)"

definition od_del :: "('k \<times> 'v) list \<Rightarrow> 'k \<Rightarrow> ('k \<times> 'v) list" where
  "od_del od k = filter (\<lambda>p. fst p \<noteq> k) od"

definition od_keys :: "('k \<times> 'v) list \<Rightarrow> 'k list" where
  "od_keys od = map fst od"

fun join :: "string \<Rightarrow> string list \<Rightarrow> string" where
  "join sep [] = []"
| "join sep [x] = x"
| "join sep (x # y # r) = x @ sep @ join sep (y # r)"

definition newline :: string where
  "newline = [CHR 0x0A]"

definition quote :: string where
  "quote = [CHR 0x27]"

definition msg_invalid :: string where
  "msg_invalid = ''Invalid date format. Please use '' @ quote @ ''YYYY-MM-DD'' @ quote @ ''.''"

definition msg_invalid_start :: string where
  "msg_invalid_start =
     ''Invalid start date format. Please use '' @ quote @ ''YYYY-MM-DD'' @ quote @ ''.''"

definition msg_duplicate :: "string \<Rightarrow> event \<Rightarrow> string" where
  "msg_duplicate date event =
     ''Event '' @ quote @ event @ quote @ '' already exists for '' @ date @ ''. Skipping.''"

definition msg_added :: "string \<Rightarrow> event \<Rightarrow> string" where
  "msg_added date event = ''Event added to '' @ date @ '': '' @ event"

definition msg_none :: "string \<Rightarrow> string" where
  "msg_none date = ''No events found for '' @ date @ ''.''"

definition msg_all :: "string \<Rightarrow> event list \<Rightarrow> string" where
  "msg_all date events =
     ''All topics to remember on '' @ date @ '':'' @ newline @
     join newline (map (\<lambda>event. ''- '' @ event) events)"

definition msg_removed :: "string \<Rightarrow> string" where
  "msg_removed cutoff_date = ''Removed all events before '' @ cutoff_date @ ''.''"

text \<open>
  \<^verbatim>\<open>_load_calendar_db\<close>: every key of the file is parsed (a key that does not parse
  raises \<^verbatim>\<open>ValueError\<close>), the dates are sorted, and each date's list is looked up under
  the date's ISO string (a key that parsed but is not in ISO form raises \<^verbatim>\<open>KeyError\<close>).
\<close>

fun parse_keys :: "string list \<Rightarrow> error + date list" where
  "parse_keys [] = Inr []"
| "parse_keys (k # ks) =
     (case strptime_date k of
        None \<Rightarrow> Inl ValueError
      | Some d \<Rightarrow> (case parse_keys ks of Inl e \<Rightarrow> Inl e | Inr ds \<Rightarrow> Inr (d # ds)))"

fun fill_calendar :: "json_db \<Rightarrow> date list \<Rightarrow> calendar \<Rightarrow> error + calendar" where
  "fill_calendar db [] calendar = Inr calendar"
| "fill_calendar db (d # ds) calendar =
     (case map_of db (isoformat d) of
        None \<Rightarrow> Inl KeyError
      | Some events \<Rightarrow> fill_calendar db ds (od_set calendar d events))"

definition load_calendar_db :: "json_db option \<Rightarrow> error + calendar" where
  "load_calendar_db file =
     (case file of
        None \<Rightarrow> Inr []
      | Some db \<Rightarrow>
         (case parse_keys (od_keys db) of
            Inl e \<Rightarrow> Inl e
          | Inr dates \<Rightarrow> fill_calendar db (sort dates) []))"

text \<open>\<^verbatim>\<open>CalendarManager(db_file)\<close>: the manager over a file, when loading succeeds.\<close>

definition init_manager :: "json_db option \<Rightarrow> error + manager" where
  "init_manager file =
     (case load_calendar_db file of
        Inl e \<Rightarrow> Inl e
      | Inr calendar \<Rightarrow> Inr \<lparr>calendar_db = calendar, db_file = file\<rparr>)"

text \<open>\<^verbatim>\<open>_save_calendar_db\<close>: the dictionary comprehension over the items, written out.\<close>

definition save_calendar_db :: "manager \<Rightarrow> manager" where
  "save_calendar_db st =
     st\<lparr>db_file := Some (foldl (\<lambda>db (d, events). od_set db (isoformat d) events) []
                             (calendar_db st))\<rparr>"

text \<open>
  \<^verbatim>\<open>add_event\<close>. The empty list for a new date is stored before the duplicate test, so
  the state returned with the duplicate message is the one after that assignment.
\<close>

definition add_event :: "manager \<Rightarrow> string \<Rightarrow> event \<Rightarrow> string \<times> manager" where
  "add_event st date event =
     (case strptime_date date of
        None \<Rightarrow> (msg_invalid, st)
      | Some date_obj \<Rightarrow>
         let (db1, events) =
               (case map_of (calendar_db st) date_obj of
                  None \<Rightarrow> (od_set (calendar_db st) date_obj [], [])
                | Some events \<Rightarrow> (calendar_db st, events))
         in if event \<in> set events
            then (msg_duplicate date event, st\<lparr>calendar_db := db1\<rparr>)
            else let db2 = od_set db1 date_obj (events @ [event]);
                     db3 = sort_key fst db2
                 in (msg_added date event, save_calendar_db (st\<lparr>calendar_db := db3\<rparr>)))"

definition show_events :: "manager \<Rightarrow> string \<Rightarrow> (string \<times> bool) \<times> manager" where
  "show_events st date =
     (case strptime_date date of
        None \<Rightarrow> ((msg_invalid, False), st)
      | Some date_obj \<Rightarrow>
         (case map_of (calendar_db st) date_obj of
            Some events \<Rightarrow>
              if events \<noteq> [] then ((msg_all date events, True), st)
              else ((msg_none date, False), st)
          | None \<Rightarrow> ((msg_none date, False), st)))"

definition cut_events_before_date :: "manager \<Rightarrow> string \<Rightarrow> string \<times> manager" where
  "cut_events_before_date st cutoff_date =
     (case strptime_date cutoff_date of
        None \<Rightarrow> (msg_invalid, st)
      | Some cutoff_date_obj \<Rightarrow>
         let dates_to_remove = filter (\<lambda>date. date < cutoff_date_obj) (od_keys (calendar_db st));
             db = foldl od_del (calendar_db st) dates_to_remove
         in (msg_removed cutoff_date, save_calendar_db (st\<lparr>calendar_db := db\<rparr>)))"

text \<open>
  The loop of \<^verbatim>\<open>add_multiple\<close>. The loop need not return (with base 0 the date stops
  moving), so it is a partial function: \<open>None\<close> is a run that never ends. An exception
  raised by \<^verbatim>\<open>current_date_obj += timedelta(days=gap)\<close> or by \<^verbatim>\<open>gap *= exponent_base\<close>
  leaves the loop with the store as the calls before it left it.
\<close>

partial_function (option) add_multiple_loop ::
  "event \<Rightarrow> number \<Rightarrow> date \<Rightarrow> date \<Rightarrow> number \<Rightarrow> string list \<Rightarrow> manager
     \<Rightarrow> ((error + string list) \<times> manager) option" where
  "add_multiple_loop event exponent_base end_date_obj current_date_obj gap output st =
     (if current_date_obj \<le> end_date_obj then
        (case add_event st (isoformat current_date_obj) event of (result, st1) \<Rightarrow>
           (case date_add_timedelta current_date_obj gap of
              Inl e \<Rightarrow> Some (Inl e, st1)
            | Inr next_date_obj \<Rightarrow>
               (case py_mul gap exponent_base of
                  Inl e \<Rightarrow> Some (Inl e, st1)
                | Inr next_gap \<Rightarrow>
                    add_multiple_loop event exponent_base end_date_obj next_date_obj
                      next_gap (output @ [result]) st1)))
      else Some (Inr output, st))"

declare add_multiple_loop.simps [code]

text \<open>
  \<^verbatim>\<open>add_multiple\<close>; \<open>today\<close> is the value of \<^verbatim>\<open>datetime.now().date()\<close>, used when no
  start date is given.
\<close>

definition add_multiple_from ::
  "manager \<Rightarrow> event \<Rightarrow> number \<Rightarrow> date \<Rightarrow> ((error + string) \<times> manager) option" where
  "add_multiple_from st event exponent_base start_date_obj =
     (case date_add_days start_date_obj (365 * 30) of
        Inl e \<Rightarrow> Some (Inl e, st)
      | Inr end_date_obj \<Rightarrow>
         (case add_multiple_loop event exponent_base end_date_obj start_date_obj (PyInt 1) [] st of
            None \<Rightarrow> None
          | Some (Inl e, st') \<Rightarrow> Some (Inl e, st')
          | Some (Inr output, st') \<Rightarrow> Some (Inr (join newline output), st')))"

definition add_multiple ::
  "date \<Rightarrow> manager \<Rightarrow> event \<Rightarrow> number \<Rightarrow> string option
     \<Rightarrow> ((error + string) \<times> manager) option" where
  "add_multiple today st event exponent_base start_date =
     (case start_date of
        None \<Rightarrow> add_multiple_from st event exponent_base today
      | Some s \<Rightarrow>
         (case strptime_date s of
            None \<Rightarrow> Some (Inr msg_invalid_start, st)
          | Some start_date_obj \<Rightarrow> add_multiple_from st event exponent_base start_date_obj))"

text \<open>
  The dates at which the loop calls \<^verbatim>\<open>add_event\<close>, and how the loop was left: through
  its condition (\<open>None\<close>) or through an exception: the loop with the store taken out.
\<close>

partial_function (option) schedule ::
  "number \<Rightarrow> date \<Rightarrow> date \<Rightarrow> number \<Rightarrow> (date list \<times> error option) option" where
  "schedule exponent_base end_date_obj current_date_obj gap =
     (if current_date_obj \<le> end_date_obj then
        (case date_add_timedelta current_date_obj gap of
           Inl e \<Rightarrow> Some ([current_date_obj], Some e)
         | Inr next_date_obj \<Rightarrow>
            (case py_mul gap exponent_base of
               Inl e \<Rightarrow> Some ([current_date_obj], Some e)
             | Inr next_gap \<Rightarrow>
                Option.bind (schedule exponent_base end_date_obj next_date_obj next_gap)
                  (\<lambda>r. Some (current_date_obj # fst r, snd r))))
      else Some ([], None))"

declare schedule.simps [code]

text \<open>Calling \<^verbatim>\<open>add_event\<close> for each date of a list in turn, collecting the outcomes.\<close>

fun add_events :: "manager \<Rightarrow> date list \<Rightarrow> event \<Rightarrow> string list \<times> manager" where
  "add_events st [] event = ([], st)"
| "add_events st (d # ds) event =
     (case add_event st (isoformat d) event of (result, st1) \<Rightarrow>
        (case add_events st1 ds event of (results, st2) \<Rightarrow> (result # results, st2)))"

text \<open>
  A history of mutating calls on one manager, for the properties that speak about every
  state the store can reach.
\<close>

datatype call = AddEvent string event | CutEventsBeforeDate string

fun apply_call :: "manager \<Rightarrow> call \<Rightarrow> manager" where
  "apply_call st (AddEvent date event) = snd (add_event st date event)"
| "apply_call st (CutEventsBeforeDate cutoff_date) = snd (cut_events_before_date st cutoff_date)"

definition run_calls :: "manager \<Rightarrow> call list \<Rightarrow> manager" where
  "run_calls st calls = foldl apply_call st calls"

text \<open>The list stored under a date, empty when the date has no entry.\<close>

definition stored_events :: "manager \<Rightarrow> date \<Rightarrow> event list" where
  "stored_events st d = (case map_of (calendar_db st) d of None \<Rightarrow> [] | Some events \<Rightarrow> events)"

subsection \<open>Dates: parsing what \<^verbatim>\<open>isoformat\<close> prints\<close>

lemma digit_all: "\<forall>n \<in> set [0..9]. is_digit (digit_chr n) \<and> digit_val (digit_chr n) = n"
  by code_simp

lemma digit_chr_props:
  assumes "0 \<le> n" "n < 10"
  shows "is_digit (digit_chr n)" and "digit_val (digit_chr n) = n"
  using digit_all assms by simp_all

lemma re_year_digits:
  assumes "is_digit a" "is_digit b" "is_digit c" "is_digit d"
  shows "re_year (a # b # c # d # r)
           = Some (1000 * digit_val a + 100 * digit_val b + 10 * digit_val c + digit_val d, r)"
  using assms by (simp add: re_year_def)

lemma decimal_4:
  "1000 * (y div 1000) + 100 * (y div 100 mod 10) + 10 * (y div 10 mod 10) + y mod 10 = (y::int)"
proof -
  have a: "y = 10 * (y div 10) + y mod 10" by simp
  have b: "y div 10 = 10 * (y div 10 div 10) + y div 10 mod 10" by simp
  have c: "y div 10 div 10 = 10 * (y div 10 div 10 div 10) + y div 10 div 10 mod 10" by simp
  have d100: "y div 100 = y div 10 div 10" by (simp add: zdiv_zmult2_eq)
  have d1000: "y div 1000 = y div 10 div 10 div 10" by (simp add: zdiv_zmult2_eq)
  show ?thesis unfolding d100 d1000 using a b c by linarith
qed

lemma re_year_fmt04:
  assumes "0 \<le> y" "y \<le> 9999"
  shows "re_year (fmt04 y @ r) = Some (y, r)"
proof -
  have a: "0 \<le> y div 1000" "y div 1000 < 10" using assms by auto
  have b: "0 \<le> y div 100 mod 10" "y div 100 mod 10 < 10" by auto
  have c: "0 \<le> y div 10 mod 10" "y div 10 mod 10 < 10" by auto
  have d: "0 \<le> y mod 10" "y mod 10 < 10" by auto
  have "re_year (fmt04 y @ r)
          = Some (1000 * (y div 1000) + 100 * (y div 100 mod 10) + 10 * (y div 10 mod 10) + y mod 10, r)"
    unfolding fmt04_def append_Cons append_Nil
    by (simp only: re_year_digits [OF digit_chr_props(1) [OF a] digit_chr_props(1) [OF b]
             digit_chr_props(1) [OF c] digit_chr_props(1) [OF d]]
           digit_chr_props(2) [OF a] digit_chr_props(2) [OF b]
           digit_chr_props(2) [OF c] digit_chr_props(2) [OF d])
  then show ?thesis by (simp only: decimal_4)
qed

lemma re_month_all:
  "\<forall>m \<in> set [1..12]. re_month (fmt02 m @ CHR ''-'' # r) = Some (m, CHR ''-'' # r)"
  by code_simp

lemma re_month_fmt02:
  assumes "1 \<le> m" "m \<le> 12"
  shows "re_month (fmt02 m @ CHR ''-'' # r) = Some (m, CHR ''-'' # r)"
  using re_month_all assms by simp

lemma re_day_all: "\<forall>d \<in> set [1..31]. re_day (fmt02 d) = Some (d, [])"
  by code_simp

lemma re_day_fmt02:
  assumes "1 \<le> d" "d \<le> 31"
  shows "re_day (fmt02 d) = Some (d, [])"
  using re_day_all assms by simp

lemma days_in_month_all:
  "\<forall>m \<in> set [1..12]. DAYS_IN_MONTH ! nat m \<le> 31 \<and> 28 \<le> DAYS_IN_MONTH ! nat m"
  by code_simp

lemma days_in_month_bounds:
  assumes "1 \<le> m" "m \<le> 12"
  shows "days_in_month y m \<le> 31" and "28 \<le> days_in_month y m"
  using days_in_month_all assms by (auto simp: days_in_month_def)

lemma strptime_isoformat:
  assumes "valid_date dt"
  shows "strptime_date (isoformat dt) = Some dt"
proof -
  obtain y m d where dt: "dt = (y, m, d)" by (cases dt) auto
  have y: "0 \<le> y" "y \<le> 9999" and m: "1 \<le> m" "m \<le> 12" and d1: "1 \<le> d"
    and dd: "d \<le> days_in_month y m"
    using assms by (auto simp: dt valid_date_def MINYEAR_def MAXYEAR_def)
  have d: "d \<le> 31" using dd days_in_month_bounds(1) [OF m, of y] by linarith
  have "isoformat dt = fmt04 y @ CHR ''-'' # (fmt02 m @ CHR ''-'' # fmt02 d)"
    by (simp add: dt isoformat_def)
  then show ?thesis
    using assms
    by (simp add: strptime_date_def re_year_fmt04 [OF y] expect_hyphen_def
          re_month_fmt02 [OF m] re_day_fmt02 [OF d1 d] dt)
qed

lemma strptime_valid: "strptime_date s = Some dt \<Longrightarrow> valid_date dt"
  by (auto simp: strptime_date_def split: option.splits if_splits)

lemma isoformat_inj: "valid_date a \<Longrightarrow> valid_date b \<Longrightarrow> isoformat a = isoformat b \<Longrightarrow> a = b"
  by (metis strptime_isoformat option.inject)

subsection \<open>Dates: ordinals\<close>

lemma month_day_all:
  "\<forall>n \<in> set [0..364]. \<forall>L \<in> set [False, True].
     (case month_day n L of (m, d) \<Rightarrow>
        1 \<le> m \<and> m \<le> 12 \<and> 1 \<le> d
        \<and> d \<le> (if m = 2 \<and> L then 29 else DAYS_IN_MONTH ! nat m)
        \<and> DAYS_BEFORE_MONTH ! nat m + (if m > 2 \<and> L then 1 else 0) + d = n + 1)"
  by code_simp

lemma month_day_props:
  assumes "0 \<le> n" "n \<le> 364" "month_day n (is_leap y) = (m, d)"
  shows "1 \<le> m" "m \<le> 12" "1 \<le> d" "d \<le> days_in_month y m"
    "days_before_month y m + d = n + 1"
proof -
  have n: "n \<in> set [0..364]" using assms(1,2) by simp
  have L: "is_leap y \<in> set [False, True]" by auto
  from month_day_all [rule_format, OF n L] assms(3)
  show "1 \<le> m" "m \<le> 12" "1 \<le> d" "d \<le> days_in_month y m"
    "days_before_month y m + d = n + 1"
    by (simp_all add: days_in_month_def days_before_month_def)
qed

lemma dby_formula:
  assumes "0 \<le> c" "c \<le> 3" "0 \<le> q" "q \<le> 24" "0 \<le> a" "a \<le> 3"
  shows "days_before_year (400 * k + 100 * c + 4 * q + a + 1)
           = 146097 * k + 36524 * c + 1461 * q + 365 * a"
proof -
  let ?y = "400 * k + 100 * c + 4 * q + a"
  have d4: "?y div 4 = 100 * k + 25 * c + q"
    by (rule int_div_pos_eq [where r = a]) (use assms in auto)
  have d100: "?y div 100 = 4 * k + c"
    by (rule int_div_pos_eq [where r = "4 * q + a"]) (use assms in auto)
  have d400: "?y div 400 = k"
    by (rule int_div_pos_eq [where r = "100 * c + 4 * q + a"]) (use assms in auto)
  have "days_before_year (?y + 1) = ?y * 365 + ?y div 4 - ?y div 100 + ?y div 400"
    by (simp add: days_before_year_def Let_def)
  then show ?thesis unfolding d4 d100 d400 by simp
qed

lemma is_leap_formula:
  assumes "0 \<le> c" "c \<le> 3" "0 \<le> q" "q \<le> 24" "0 \<le> a" "a \<le> 3"
  shows "is_leap (400 * k + 100 * c + 4 * q + a + 1) \<longleftrightarrow> a = 3 \<and> (q \<noteq> 24 \<or> c = 3)"
proof (cases "a = 3")
  case False
  have "(400 * k + 100 * c + 4 * q + a + 1) mod 4 = a + 1"
    by (rule int_mod_pos_eq [where q = "100 * k + 25 * c + q"]) (use assms False in auto)
  then show ?thesis using False assms by (simp add: is_leap_def)
next
  case True
  have m4: "(400 * k + 100 * c + 4 * q + a + 1) mod 4 = 0"
    by (rule int_mod_pos_eq [where q = "100 * k + 25 * c + q + 1"]) (use True in auto)
  show ?thesis
  proof (cases "q = 24")
    case q: True
    have m100: "(400 * k + 100 * c + 4 * q + a + 1) mod 100 = 0"
      by (rule int_mod_pos_eq [where q = "4 * k + c + 1"]) (use True q in auto)
    show ?thesis
    proof (cases "c = 3")
      case c: True
      have "(400 * k + 100 * c + 4 * q + a + 1) mod 400 = 0"
        by (rule int_mod_pos_eq [where q = "k + 1"]) (use True q c in auto)
      then show ?thesis using True q c m4 by (simp add: is_leap_def)
    next
      case c: False
      have "(400 * k + 100 * c + 4 * q + a + 1) mod 400 = 100 * c + 100"
        by (rule int_mod_pos_eq [where q = k]) (use True q c assms in auto)
      then show ?thesis using True q c m100 assms by (simp add: is_leap_def)
    qed
  next
    case q: False
    have "(400 * k + 100 * c + 4 * q + a + 1) mod 100 = 4 * q + 4"
      by (rule int_mod_pos_eq [where q = "4 * k + c"]) (use True q assms in auto)
    then show ?thesis using True q m4 assms by (simp add: is_leap_def)
  qed
qed


lemma months_all:
  "\<forall>m1 \<in> set [1..12]. \<forall>m2 \<in> set [1..12]. \<forall>L \<in> set [False, True].
     m1 < m2 \<longrightarrow>
       DAYS_BEFORE_MONTH ! nat m1 + (if m1 > 2 \<and> L then 1 else 0)
         + (if m1 = 2 \<and> L then 29 else DAYS_IN_MONTH ! nat m1)
       \<le> DAYS_BEFORE_MONTH ! nat m2 + (if m2 > 2 \<and> L then 1 else 0)"
  by code_simp

lemma year_length_all:
  "\<forall>m \<in> set [1..12]. \<forall>L \<in> set [False, True].
     0 \<le> DAYS_BEFORE_MONTH ! nat m
     \<and> DAYS_BEFORE_MONTH ! nat m + (if m > 2 \<and> L then 1 else 0)
         + (if m = 2 \<and> L then 29 else DAYS_IN_MONTH ! nat m)
       \<le> 365 + (if L then 1 else 0)"
  by code_simp

lemma month_order:
  assumes "1 \<le> m1" "m1 < m2" "m2 \<le> 12"
  shows "days_before_month y m1 + days_in_month y m1 \<le> days_before_month y m2"
proof -
  have a: "m1 \<in> set [1..12]" and b: "m2 \<in> set [1..12]" using assms by simp_all
  have L: "is_leap y \<in> set [False, True]" by auto
  from months_all [rule_format, OF a b L assms(2)]
  show ?thesis by (simp add: days_in_month_def days_before_month_def)
qed

lemma year_length:
  assumes "1 \<le> m" "m \<le> 12"
  shows "0 \<le> days_before_month y m"
    and "days_before_month y m + days_in_month y m \<le> 365 + (if is_leap y then 1 else 0)"
proof -
  have a: "m \<in> set [1..12]" using assms by simp
  have L: "is_leap y \<in> set [False, True]" by auto
  from year_length_all [rule_format, OF a L]
  show "0 \<le> days_before_month y m"
    and "days_before_month y m + days_in_month y m \<le> 365 + (if is_leap y then 1 else 0)"
    by (simp_all add: days_in_month_def days_before_month_def)
qed

lemma div_succ:
  assumes "0 < (b::int)"
  shows "(x + 1) div b = x div b + (if (x + 1) mod b = 0 then 1 else 0)"
proof -
  have x: "x = b * (x div b) + x mod b" by simp
  have r: "0 \<le> x mod b" "x mod b < b" using assms by simp_all
  show ?thesis
  proof (cases "x mod b + 1 = b")
    case True
    have "x + 1 = b * (x div b) + (x mod b + 1)" using x by simp
    also have "\<dots> = b * (x div b) + b" using True by simp
    finally have eq: "x + 1 = b * (x div b + 1) + 0" by (simp add: distrib_left)
    have "(x + 1) div b = x div b + 1"
      by (rule int_div_pos_eq [OF eq]) (use assms in auto)
    moreover have "(x + 1) mod b = 0"
      by (rule int_mod_pos_eq [OF eq]) (use assms in auto)
    ultimately show ?thesis by simp
  next
    case False
    have eq: "x + 1 = b * (x div b) + (x mod b + 1)" using x by simp
    have lt: "x mod b + 1 < b" using False r by linarith
    have "(x + 1) div b = x div b"
      by (rule int_div_pos_eq [OF eq]) (use r lt in auto)
    moreover have "(x + 1) mod b = x mod b + 1"
      by (rule int_mod_pos_eq [OF eq]) (use r lt in auto)
    ultimately show ?thesis using r by simp
  qed
qed

lemma dby_succ_aux:
  fixes x :: int
  assumes "A' = A + i" "B' = B + j" "C' = C + k"
  shows "(x + 1) * 365 + A' - B' + C' = x * 365 + A - B + C + 365 + (i - j + k)"
  using assms by simp

lemma leap_indicator:
  assumes "p400 \<Longrightarrow> p100" "p100 \<Longrightarrow> p4"
  shows "(if p4 then 1 else 0) - (if p100 then 1 else 0) + (if p400 then 1 else (0::int))
           = (if p4 \<and> (\<not> p100 \<or> p400) then 1 else 0)"
  using assms by (cases p4; cases p100; cases p400; simp)

lemma dby_succ:
  "days_before_year (y + 1) = days_before_year y + 365 + (if is_leap y then 1 else 0)"
proof -
  have a: "y div 4 = (y - 1) div 4 + (if y mod 4 = 0 then 1 else 0)"
    using div_succ [of 4 "y - 1"] by simp
  have b: "y div 100 = (y - 1) div 100 + (if y mod 100 = 0 then 1 else 0)"
    using div_succ [of 100 "y - 1"] by simp
  have c: "y div 400 = (y - 1) div 400 + (if y mod 400 = 0 then 1 else 0)"
    using div_succ [of 400 "y - 1"] by simp
  have "y mod 400 mod 100 = y mod 100" by (rule mod_mod_cancel) simp
  then have d1: "y mod 400 = 0 \<Longrightarrow> y mod 100 = 0" by simp
  have "y mod 100 mod 4 = y mod 4" by (rule mod_mod_cancel) simp
  then have d2: "y mod 100 = 0 \<Longrightarrow> y mod 4 = 0" by simp
  have "days_before_year (y + 1) = (y - 1 + 1) * 365 + y div 4 - y div 100 + y div 400"
    by (simp add: days_before_year_def)
  also have "\<dots> = (y - 1) * 365 + (y - 1) div 4 - (y - 1) div 100 + (y - 1) div 400 + 365
      + ((if y mod 4 = 0 then 1 else 0) - (if y mod 100 = 0 then 1 else 0)
          + (if y mod 400 = 0 then 1 else 0))"
    by (rule dby_succ_aux [OF a b c])
  also have "\<dots> = days_before_year y + 365 + (if is_leap y then 1 else 0)"
  proof -
    have ind: "(if y mod 4 = 0 then 1 else 0) - (if y mod 100 = 0 then 1 else 0)
                 + (if y mod 400 = 0 then 1 else 0) = (if is_leap y then 1 else (0::int))"
      unfolding is_leap_def by (rule leap_indicator [OF d1 d2])
    show ?thesis by (simp only: ind days_before_year_def Let_def)
  qed
  finally show ?thesis .
qed

lemma dby_strict_mono_aux:
  fixes x :: int
  assumes "a \<le> a'" "b \<le> b'" "100 * c' \<le> x'" "x < 100 * c + 100" "x < x'"
  shows "x * 365 + a - c + b < x' * 365 + a' - c' + b'"
  using assms by linarith

lemma dby_strict_mono:
  assumes "y < y'"
  shows "days_before_year y < days_before_year y'"
proof -
  have a: "(y - 1) div 4 \<le> (y' - 1) div 4" by (rule zdiv_mono1) (use assms in auto)
  have b: "(y - 1) div 400 \<le> (y' - 1) div 400" by (rule zdiv_mono1) (use assms in auto)
  have c: "100 * ((y' - 1) div 100) \<le> y' - 1"
    by (simp add: mult.commute)
  have d: "y - 1 < 100 * ((y - 1) div 100) + 100"
    using div_mult_mod_eq [of "y - 1" 100] pos_mod_bound [of 100 "y - 1"] by simp
  have e: "y - 1 < y' - 1" using assms by simp
  show ?thesis
    unfolding days_before_year_def Let_def by (rule dby_strict_mono_aux [OF a b c d e])
qed

lemma dby_mono: "y \<le> y' \<Longrightarrow> days_before_year y \<le> days_before_year y'"
  using dby_strict_mono [of y y'] by (cases "y = y'") auto

lemma dby_1: "days_before_year 1 = 0"
  by (simp add: days_before_year_def)

lemma dby_10000: "days_before_year 10000 = 3652059"
  by (simp add: days_before_year_def)


lemma fromordinal_correct:
  assumes "1 \<le> n0" "n0 \<le> MAXORDINAL"
  shows "valid_date (fromordinal n0) \<and> toordinal (fromordinal n0) = n0"
proof -
  define n where "n = n0 - 1"
  define k where "k = n div 146097"
  define r1 where "r1 = n mod 146097"
  define c where "c = r1 div 36524"
  define r2 where "r2 = r1 mod 36524"
  define q where "q = r2 div 1461"
  define r3 where "r3 = r2 mod 1461"
  define a where "a = r3 div 365"
  define r4 where "r4 = r3 mod 365"
  have n: "0 \<le> n" "n \<le> 3652058" using assms by (simp_all add: n_def MAXORDINAL_def)
  have e1: "n = 146097 * k + r1" "0 \<le> r1" "r1 < 146097" by (simp_all add: k_def r1_def)
  have e2: "r1 = 36524 * c + r2" "0 \<le> r2" "r2 < 36524" by (simp_all add: c_def r2_def)
  have e3: "r2 = 1461 * q + r3" "0 \<le> r3" "r3 < 1461" by (simp_all add: q_def r3_def)
  have e4: "r3 = 365 * a + r4" "0 \<le> r4" "r4 < 365" by (simp_all add: a_def r4_def)
  have kb: "0 \<le> k" "k \<le> 24" using e1 n by linarith+
  have cb: "0 \<le> c" "c \<le> 4" using e2 e1(2,3) by linarith+
  have qb: "0 \<le> q" "q \<le> 24" using e3 e2(2,3) by linarith+
  have ab: "0 \<le> a" "a \<le> 4" using e4 e3(2,3) by linarith+
  have fo: "fromordinal n0 =
      (if a = 4 \<or> c = 4 then (k * 400 + 1 + c * 100 + q * 4 + a - 1, 12, 31)
       else (case month_day r4 (a = 3 \<and> (q \<noteq> 24 \<or> c = 3)) of
               (month, day) \<Rightarrow> (k * 400 + 1 + c * 100 + q * 4 + a, month, day)))"
    by (simp only: fromordinal_def Let_def DI400Y_def DI100Y_def DI4Y_def
          n_def k_def r1_def c_def r2_def q_def r3_def a_def r4_def)
  show ?thesis
  proof (cases "c = 4")
    case True
    have z: "r2 = 0" "q = 0" "r3 = 0" "a = 0" "r4 = 0" "k \<le> 23"
      using True e1 e2 e3 e4 qb ab n by linarith+
    have y: "k * 400 + 1 + c * 100 + q * 4 + a - 1 = 400 * k + 100 * 3 + 4 * 24 + 3 + 1"
      using True z by simp
    have dby: "days_before_year (400 * k + 100 * 3 + 4 * 24 + 3 + 1)
                 = 146097 * k + 36524 * 3 + 1461 * 24 + 365 * 3"
      by (rule dby_formula) simp_all
    have leap: "is_leap (400 * k + 100 * 3 + 4 * 24 + 3 + 1)"
      by (subst is_leap_formula) simp_all
    have nn: "n0 = 146097 * k + 146097" using e1 e2 True z by (simp add: n_def)
    show ?thesis
      unfolding fo y using True kb z(6) leap dby nn
      by (simp add: valid_date_def toordinal_def MINYEAR_def MAXYEAR_def days_in_month_def
            days_before_month_def DAYS_IN_MONTH_def DAYS_BEFORE_MONTH_def)
  next
    case c4: False
    then have c3: "c \<le> 3" using cb by simp
    show ?thesis
    proof (cases "a = 4")
      case True
      have z: "r4 = 0" "q \<le> 23" using True e3 e4 e2 by linarith+
      have y: "k * 400 + 1 + c * 100 + q * 4 + a - 1 = 400 * k + 100 * c + 4 * q + 3 + 1"
        using True by simp
      have dby: "days_before_year (400 * k + 100 * c + 4 * q + 3 + 1)
                   = 146097 * k + 36524 * c + 1461 * q + 365 * 3"
        by (rule dby_formula) (use cb c3 qb in simp_all)
      have leap: "is_leap (400 * k + 100 * c + 4 * q + 3 + 1)"
        by (subst is_leap_formula) (use cb c3 qb z in simp_all)
      have nn: "n0 = 146097 * k + 36524 * c + 1461 * q + 1461"
        using e1 e2 e3 e4 True z by (simp add: n_def)
      have yb: "1 \<le> 400 * k + 100 * c + 4 * q + 3 + 1" "400 * k + 100 * c + 4 * q + 3 + 1 \<le> 9999"
        using kb cb c3 qb z by linarith+
      show ?thesis
        unfolding fo y using True yb leap dby nn
        by (simp add: valid_date_def toordinal_def MINYEAR_def MAXYEAR_def days_in_month_def
              days_before_month_def DAYS_IN_MONTH_def DAYS_BEFORE_MONTH_def)
    next
      case False
      then have a3: "a \<le> 3" using ab by simp
      define Y where "Y = 400 * k + 100 * c + 4 * q + a + 1"
      have y: "k * 400 + 1 + c * 100 + q * 4 + a = Y" by (simp add: Y_def)
      have dby: "days_before_year Y = 146097 * k + 36524 * c + 1461 * q + 365 * a"
        unfolding Y_def by (rule dby_formula) (use cb c3 qb ab a3 in simp_all)
      have leap: "is_leap Y \<longleftrightarrow> a = 3 \<and> (q \<noteq> 24 \<or> c = 3)"
        unfolding Y_def by (rule is_leap_formula) (use cb c3 qb ab a3 in simp_all)
      have nn: "n0 = days_before_year Y + r4 + 1"
        using e1 e2 e3 e4 dby by (simp add: n_def)
      have "days_before_year Y < days_before_year 10000"
        using nn assms(2) e4(2) by (simp add: dby_10000 MAXORDINAL_def)
      then have "Y < 10000" using dby_mono [of 10000 Y] by linarith
      moreover have "1 \<le> Y" using kb cb qb ab by (simp add: Y_def)
      ultimately have yb: "1 \<le> Y" "Y \<le> 9999" by simp_all
      obtain m d where md: "month_day r4 (is_leap Y) = (m, d)" by (cases "month_day r4 (is_leap Y)")
      have r4b: "0 \<le> r4" "r4 \<le> 364" using e4 by simp_all
      note p = month_day_props [OF r4b md]
      have "fromordinal n0 = (Y, m, d)"
        unfolding fo y using c4 False md leap by simp
      then show ?thesis
        using p yb nn by (simp add: valid_date_def toordinal_def MINYEAR_def MAXYEAR_def)
    qed
  qed
qed


lemma toordinal_bounds_year:
  assumes "valid_date (y, m, d)"
  shows "days_before_year y < toordinal (y, m, d)"
    and "toordinal (y, m, d) \<le> days_before_year (y + 1)"
proof -
  have m: "1 \<le> m" "m \<le> 12" and d: "1 \<le> d" "d \<le> days_in_month y m"
    using assms by (simp_all add: valid_date_def)
  note yl = year_length [OF m, of y]
  show "days_before_year y < toordinal (y, m, d)"
    using yl(1) d(1) by (simp add: toordinal_def)
  have "toordinal (y, m, d) \<le> days_before_year y + (365 + (if is_leap y then 1 else 0))"
    using yl(2) d(2) by (simp add: toordinal_def)
  then show "toordinal (y, m, d) \<le> days_before_year (y + 1)"
    by (simp add: dby_succ)
qed

lemma toordinal_strict_mono:
  assumes "valid_date a" "valid_date b" "a < b"
  shows "toordinal a < toordinal b"
proof -
  obtain y1 m1 d1 where a: "a = (y1, m1, d1)" by (cases a) auto
  obtain y2 m2 d2 where b: "b = (y2, m2, d2)" by (cases b) auto
  from assms(3) consider "y1 < y2" | "y1 = y2" "m1 < m2" | "y1 = y2" "m1 = m2" "d1 < d2"
    unfolding a b prod_less_eq by auto
  then show ?thesis
  proof cases
    case 1
    have "toordinal a \<le> days_before_year (y1 + 1)"
      using toordinal_bounds_year(2) assms(1) by (simp add: a)
    also have "\<dots> \<le> days_before_year y2" using 1 by (intro dby_mono) simp
    also have "\<dots> < toordinal b" using toordinal_bounds_year(1) assms(2) by (simp add: b)
    finally show ?thesis .
  next
    case 2
    have m: "1 \<le> m1" "m2 \<le> 12" and d: "d1 \<le> days_in_month y1 m1" "1 \<le> d2"
      using assms(1,2) by (simp_all add: valid_date_def a b)
    from month_order [OF m(1) 2(2) m(2), of y1] d 2(1)
    show ?thesis by (simp add: toordinal_def a b)
  next
    case 3
    then show ?thesis by (simp add: toordinal_def a b)
  qed
qed

lemma toordinal_range:
  assumes "valid_date dt"
  shows "1 \<le> toordinal dt" and "toordinal dt \<le> MAXORDINAL"
proof -
  obtain y m d where dt: "dt = (y, m, d)" by (cases dt) auto
  have y: "1 \<le> y" "y \<le> 9999" using assms by (simp_all add: valid_date_def dt MINYEAR_def MAXYEAR_def)
  have "days_before_year 1 \<le> days_before_year y" using y(1) by (rule dby_mono)
  then show "1 \<le> toordinal dt"
    using toordinal_bounds_year(1) [of y m d] assms by (simp add: dt dby_1)
  have "days_before_year (y + 1) \<le> days_before_year 10000" using y(2) by (intro dby_mono) simp
  then show "toordinal dt \<le> MAXORDINAL"
    using toordinal_bounds_year(2) [of y m d] assms by (simp add: dt dby_10000 MAXORDINAL_def)
qed

lemma toordinal_inj:
  assumes "valid_date a" "valid_date b" "toordinal a = toordinal b"
  shows "a = b"
  using toordinal_strict_mono [OF assms(1,2)] toordinal_strict_mono [OF assms(2,1)] assms(3)
  by (metis less_irrefl linorder_neqE)

lemma fromordinal_toordinal:
  assumes "valid_date dt"
  shows "fromordinal (toordinal dt) = dt"
proof -
  note r = toordinal_range [OF assms]
  note c = fromordinal_correct [OF r]
  show ?thesis by (rule toordinal_inj) (use c assms in simp_all)
qed

lemma toordinal_le_iff:
  assumes "valid_date a" "valid_date b"
  shows "a \<le> b \<longleftrightarrow> toordinal a \<le> toordinal b"
  using toordinal_strict_mono [OF assms] toordinal_strict_mono [OF assms(2,1)]
  by (metis leD leI order_le_less)

lemma date_add_days_Inr:
  assumes "date_add_days dt k = Inr dt'"
  shows "valid_date dt'" and "toordinal dt' = toordinal dt + k"
    and "\<bar>k\<bar> \<le> 999999999" and "1 \<le> toordinal dt + k" and "toordinal dt + k \<le> MAXORDINAL"
proof -
  from assms have k: "\<bar>k\<bar> \<le> 999999999" and r: "1 \<le> toordinal dt + k" "toordinal dt + k \<le> MAXORDINAL"
    and eq: "dt' = fromordinal (toordinal dt + k)"
    by (auto simp: date_add_days_def Let_def split: if_splits)
  note c = fromordinal_correct [OF r]
  show "valid_date dt'" "toordinal dt' = toordinal dt + k" using c by (simp_all add: eq)
  show "\<bar>k\<bar> \<le> 999999999" "1 \<le> toordinal dt + k" "toordinal dt + k \<le> MAXORDINAL"
    using k r by simp_all
qed

subsection \<open>Queries and malformed dates\<close>

text \<open>
  Claim C10. Whatever string it is given (valid or malformed, a date that is stored or one
  that is not), \<^verbatim>\<open>show_events\<close> returns the manager as it received it: neither the
  in-memory calendar nor the database file changes.
\<close>

theorem show_events_pure: "snd (show_events st date) = st"
  by (simp add: show_events_def split: option.splits)

theorem show_events_pure_witness:
  "snd (show_events \<lparr>calendar_db = [((2024, 1, 5), [''x''])], db_file = None\<rparr> ''2024-01-05'')
     = \<lparr>calendar_db = [((2024, 1, 5), [''x''])], db_file = None\<rparr>
   \<and> fst (show_events \<lparr>calendar_db = [((2024, 1, 5), [''x''])], db_file = None\<rparr> ''2024-01-05'')
     = (msg_all ''2024-01-05'' [''x''], True)"
  using show_events_pure
    [of "\<lparr>calendar_db = [((2024, 1, 5), [''x''])], db_file = None\<rparr>" "''2024-01-05''"]
  by code_simp

text \<open>
  Claim C4. For a string that \<^verbatim>\<open>strptime\<close> rejects, \<^verbatim>\<open>add_event\<close>, \<^verbatim>\<open>show_events\<close> and
  \<^verbatim>\<open>cut_events_before_date\<close> each return the invalid-date message (\<^verbatim>\<open>show_events\<close>
  with the flag \<open>False\<close>), and each returns the manager unchanged: the calendar in
  memory and the contents of the database file are what they were.
\<close>

theorem malformed_date_rejected:
  assumes "strptime_date s = None"
  shows "add_event st s e = (msg_invalid, st)
       \<and> show_events st s = ((msg_invalid, False), st)
       \<and> cut_events_before_date st s = (msg_invalid, st)"
  using assms by (simp add: add_event_def show_events_def cut_events_before_date_def)

theorem malformed_date_rejected_witness:
  "strptime_date ''2024-13-01'' = None
   \<and> add_event \<lparr>calendar_db = [((2024, 1, 5), [''x''])], db_file = None\<rparr> ''2024-13-01'' ''y''
       = (msg_invalid, \<lparr>calendar_db = [((2024, 1, 5), [''x''])], db_file = None\<rparr>)
   \<and> show_events \<lparr>calendar_db = [((2024, 1, 5), [''x''])], db_file = None\<rparr> ''2024-13-01''
       = ((msg_invalid, False), \<lparr>calendar_db = [((2024, 1, 5), [''x''])], db_file = None\<rparr>)
   \<and> cut_events_before_date \<lparr>calendar_db = [((2024, 1, 5), [''x''])], db_file = None\<rparr>
         ''2024-13-01''
       = (msg_invalid, \<lparr>calendar_db = [((2024, 1, 5), [''x''])], db_file = None\<rparr>)"
proof -
  have h: "strptime_date ''2024-13-01'' = None" by code_simp
  show ?thesis
    using h malformed_date_rejected [OF h] by simp
qed

subsection \<open>Pruning\<close>

lemma foldl_od_del: "foldl od_del od ks = filter (\<lambda>p. fst p \<notin> set ks) od"
  by (induction ks arbitrary: od) (auto simp: od_del_def intro: filter_cong)

lemma cut_calendar:
  "strptime_date c = Some cd \<Longrightarrow>
   calendar_db (snd (cut_events_before_date st c)) = filter (\<lambda>p. \<not> fst p < cd) (calendar_db st)"
  by (auto simp: cut_events_before_date_def save_calendar_db_def Let_def foldl_od_del od_keys_def
           intro!: filter_cong)

text \<open>
  Claim C6. For a cutoff string that parses to the date \<open>cd\<close>, \<^verbatim>\<open>cut_events_before_date\<close>
  always answers with the success message, and the calendar it leaves is the old one
  without the entries whose date is below \<open>cd\<close>: every remaining date is at least \<open>cd\<close>,
  every earlier date is gone, every date from \<open>cd\<close> on (the cutoff itself included) is
  still there, and when nothing lies below the cutoff the calendar is unchanged and the
  answer is the same success message.
\<close>

theorem cut_events_before_date_spec:
  assumes "strptime_date c = Some cd"
  shows "fst (cut_events_before_date st c) = msg_removed c
       \<and> calendar_db (snd (cut_events_before_date st c))
           = filter (\<lambda>p. cd \<le> fst p) (calendar_db st)
       \<and> (\<forall>d \<in> set (od_keys (calendar_db (snd (cut_events_before_date st c)))). cd \<le> d)
       \<and> (\<forall>d \<in> set (od_keys (calendar_db st)).
             d < cd \<longrightarrow> d \<notin> set (od_keys (calendar_db (snd (cut_events_before_date st c)))))
       \<and> (\<forall>d \<in> set (od_keys (calendar_db st)).
             cd \<le> d \<longrightarrow> d \<in> set (od_keys (calendar_db (snd (cut_events_before_date st c)))))
       \<and> ((\<forall>d \<in> set (od_keys (calendar_db st)). cd \<le> d) \<longrightarrow>
             calendar_db (snd (cut_events_before_date st c)) = calendar_db st)"
proof -
  have eq: "calendar_db (snd (cut_events_before_date st c))
              = filter (\<lambda>p. cd \<le> fst p) (calendar_db st)"
    using cut_calendar [OF assms, of st] by (simp add: not_less)
  have msg: "fst (cut_events_before_date st c) = msg_removed c"
    using assms by (simp add: cut_events_before_date_def Let_def)
  have all: "(\<forall>d \<in> set (od_keys (calendar_db st)). cd \<le> d) \<longrightarrow>
             filter (\<lambda>p. cd \<le> fst p) (calendar_db st) = calendar_db st"
    by (auto simp: od_keys_def filter_id_conv)
  show ?thesis
    unfolding eq using msg all by (auto simp: od_keys_def)
qed

theorem cut_events_before_date_spec_witness:
  "strptime_date ''2024-01-05'' = Some (2024, 1, 5)
   \<and> fst (cut_events_before_date
        \<lparr>calendar_db = [((2024, 1, 1), [''a'']), ((2024, 1, 5), [''b'']), ((2024, 2, 1), [''c''])],
         db_file = None\<rparr> ''2024-01-05'') = msg_removed ''2024-01-05''
   \<and> calendar_db (snd (cut_events_before_date
        \<lparr>calendar_db = [((2024, 1, 1), [''a'']), ((2024, 1, 5), [''b'']), ((2024, 2, 1), [''c''])],
         db_file = None\<rparr> ''2024-01-05''))
       = [((2024, 1, 5), [''b'']), ((2024, 2, 1), [''c''])]
   \<and> fst (cut_events_before_date
        \<lparr>calendar_db = [((2024, 1, 5), [''b'']), ((2024, 2, 1), [''c''])],
         db_file = None\<rparr> ''2024-01-05'') = msg_removed ''2024-01-05''
   \<and> calendar_db (snd (cut_events_before_date
        \<lparr>calendar_db = [((2024, 1, 5), [''b'']), ((2024, 2, 1), [''c''])],
         db_file = None\<rparr> ''2024-01-05''))
       = [((2024, 1, 5), [''b'']), ((2024, 2, 1), [''c''])]"
proof -
  have h: "strptime_date ''2024-01-05'' = Some (2024, 1, 5)" by code_simp
  show ?thesis
    using h
      cut_events_before_date_spec [OF h, of
        "\<lparr>calendar_db = [((2024, 1, 1), [''a'']), ((2024, 1, 5), [''b'']), ((2024, 2, 1), [''c''])],
          db_file = None\<rparr>"]
      cut_events_before_date_spec [OF h, of
        "\<lparr>calendar_db = [((2024, 1, 5), [''b'']), ((2024, 2, 1), [''c''])], db_file = None\<rparr>"]
    by code_simp
qed

subsection \<open>Adding an event\<close>

lemma map_of_od_set: "map_of (od_set od k v) k' = (if k' = k then Some v else map_of od k')"
  by (induction od) auto

lemma map_of_filter_fst:
  "map_of xs k = (case filter (\<lambda>p. fst p = k) xs of [] \<Rightarrow> None | p # _ \<Rightarrow> Some (snd p))"
  by (induction xs) auto

lemma map_of_sort_key_fst: "map_of (sort_key fst xs) k = map_of xs k"
  by (simp add: map_of_filter_fst [of "sort_key fst xs"] map_of_filter_fst [of xs] sort_key_stable)

lemma add_event_new:
  assumes "strptime_date d = Some dobj"
    and "map_of (calendar_db st) dobj = None"
  shows "fst (add_event st d e) = msg_added d e"
    and "map_of (calendar_db (snd (add_event st d e))) dobj = Some [e]"
  using assms
  by (simp_all add: add_event_def Let_def save_calendar_db_def map_of_sort_key_fst map_of_od_set)

lemma add_event_fresh:
  assumes "strptime_date d = Some dobj"
    and "map_of (calendar_db st) dobj = Some events" and "e \<notin> set events"
  shows "fst (add_event st d e) = msg_added d e"
    and "map_of (calendar_db (snd (add_event st d e))) dobj = Some (events @ [e])"
  using assms
  by (simp_all add: add_event_def Let_def save_calendar_db_def map_of_sort_key_fst map_of_od_set)

lemma add_event_present:
  assumes "strptime_date d = Some dobj"
    and "map_of (calendar_db st) dobj = Some events" and "e \<in> set events"
  shows "add_event st d e = (msg_duplicate d e, st)"
  using assms by (simp add: add_event_def)

text \<open>
  Claim C1, with the condition under which it holds. For a string \<open>d\<close> that parses to
  a date and an event text that is not yet in the list stored under that date, the first
  \<^verbatim>\<open>add_event(d, e)\<close> answers with the added message, the second one answers with the
  duplicate message and returns the manager exactly as the first call left it, and the
  list stored under the date then holds the text exactly once.
\<close>

theorem add_event_twice:
  assumes "strptime_date d = Some dobj"
    and "e \<notin> set (stored_events st dobj)"
  shows "fst (add_event st d e) = msg_added d e
       \<and> add_event (snd (add_event st d e)) d e = (msg_duplicate d e, snd (add_event st d e))
       \<and> count_list (stored_events (snd (add_event st d e)) dobj) e = 1"
proof (cases "map_of (calendar_db st) dobj")
  case None
  note n = add_event_new [OF assms(1) None, of e]
  have "add_event (snd (add_event st d e)) d e = (msg_duplicate d e, snd (add_event st d e))"
    by (rule add_event_present [OF assms(1) n(2)]) simp
  then show ?thesis using n by (simp add: stored_events_def)
next
  case (Some events)
  then have notin: "e \<notin> set events" using assms(2) by (simp add: stored_events_def)
  note n = add_event_fresh [OF assms(1) Some notin]
  have "add_event (snd (add_event st d e)) d e = (msg_duplicate d e, snd (add_event st d e))"
    by (rule add_event_present [OF assms(1) n(2)]) simp
  then show ?thesis using n notin by (simp add: stored_events_def)
qed

text \<open>
  Without that condition the first call is the duplicate one: a manager loaded from a
  file that already lists the event under the date answers the first \<^verbatim>\<open>add_event\<close>
  with the duplicate message.
\<close>

theorem add_event_twice_counterexample:
  "init_manager (Some [(''2024-01-01'', [''x''])])
     = Inr \<lparr>calendar_db = [((2024, 1, 1), [''x''])], db_file = Some [(''2024-01-01'', [''x''])]\<rparr>
   \<and> strptime_date ''2024-01-01'' = Some (2024, 1, 1)
   \<and> fst (add_event \<lparr>calendar_db = [((2024, 1, 1), [''x''])],
                      db_file = Some [(''2024-01-01'', [''x''])]\<rparr> ''2024-01-01'' ''x'')
       = msg_duplicate ''2024-01-01'' ''x''
   \<and> fst (add_event \<lparr>calendar_db = [((2024, 1, 1), [''x''])],
                      db_file = Some [(''2024-01-01'', [''x''])]\<rparr> ''2024-01-01'' ''x'')
       \<noteq> msg_added ''2024-01-01'' ''x''"
  by code_simp

theorem add_event_twice_witness:
  "strptime_date ''2024-01-01'' = Some (2024, 1, 1)
   \<and> ''y'' \<notin> set (stored_events \<lparr>calendar_db = [((2024, 1, 1), [''x''])], db_file = None\<rparr> (2024, 1, 1))
   \<and> fst (add_event \<lparr>calendar_db = [((2024, 1, 1), [''x''])], db_file = None\<rparr> ''2024-01-01'' ''y'')
       = msg_added ''2024-01-01'' ''y''
   \<and> add_event (snd (add_event \<lparr>calendar_db = [((2024, 1, 1), [''x''])], db_file = None\<rparr>
                       ''2024-01-01'' ''y'')) ''2024-01-01'' ''y''
       = (msg_duplicate ''2024-01-01'' ''y'',
          \<lparr>calendar_db = [((2024, 1, 1), [''x'', ''y''])],
           db_file = Some [(''2024-01-01'', [''x'', ''y''])]\<rparr>)
   \<and> count_list (stored_events (snd (add_event
          \<lparr>calendar_db = [((2024, 1, 1), [''x''])], db_file = None\<rparr> ''2024-01-01'' ''y''))
          (2024, 1, 1)) ''y'' = 1"
proof -
  have h: "strptime_date ''2024-01-01'' = Some (2024, 1, 1)" by code_simp
  have g: "''y'' \<notin> set (stored_events \<lparr>calendar_db = [((2024, 1, 1), [''x''])], db_file = None\<rparr>
                          (2024, 1, 1))" by code_simp
  show ?thesis
    using h g add_event_twice [OF h g] by code_simp
qed

subsection \<open>The order of the keys\<close>

lemma keys_od_set:
  "map fst (od_set od k v) = (if k \<in> set (map fst od) then map fst od else map fst od @ [k])"
  by (induction od) auto

lemma distinct_keys_sort_key: "distinct (map f (sort_key f xs)) = distinct (map f xs)"
  by (induction xs) (auto simp: distinct_insort_key)

lemma strict_sorted_keys_sort_key:
  "distinct (map fst xs) \<Longrightarrow> sorted_wrt (<) (map fst (sort_key fst xs))"
  by (simp add: strict_sorted_iff distinct_keys_sort_key)

lemma map_of_None_keys: "map_of od k = None \<longleftrightarrow> k \<notin> set (map fst od)"
  by (simp add: map_of_eq_None_iff)

lemma add_event_sorted:
  assumes "sorted_wrt (<) (od_keys (calendar_db st))"
  shows "sorted_wrt (<) (od_keys (calendar_db (snd (add_event st d e))))"
proof (cases "strptime_date d")
  case None
  then show ?thesis using assms by (simp add: add_event_def)
next
  case (Some dobj)
  have dist: "distinct (map fst (calendar_db st))"
    using assms by (simp add: strict_sorted_iff od_keys_def)
  show ?thesis
  proof (cases "map_of (calendar_db st) dobj")
    case None
    then have "dobj \<notin> set (map fst (calendar_db st))" by (simp add: map_of_None_keys)
    then have "distinct (map fst (od_set (od_set (calendar_db st) dobj []) dobj [e]))"
      using dist by (simp add: keys_od_set)
    then show ?thesis using Some None
      by (simp add: add_event_def Let_def save_calendar_db_def od_keys_def
            strict_sorted_keys_sort_key)
  next
    case (Some events)
    then have "dobj \<in> set (map fst (calendar_db st))"
      using map_of_None_keys [of "calendar_db st" dobj] by simp
    then have "distinct (map fst (od_set (calendar_db st) dobj (events @ [e])))"
      using dist by (simp add: keys_od_set)
    then show ?thesis using \<open>strptime_date d = Some dobj\<close> Some assms
      by (simp add: add_event_def Let_def save_calendar_db_def od_keys_def
            strict_sorted_keys_sort_key)
  qed
qed

lemma strict_sorted_keys_filter:
  "sorted_wrt (<) (map fst xs) \<Longrightarrow> sorted_wrt (<) (map fst (filter P xs))"
  by (induction xs) auto

lemma cut_sorted:
  assumes "sorted_wrt (<) (od_keys (calendar_db st))"
  shows "sorted_wrt (<) (od_keys (calendar_db (snd (cut_events_before_date st c))))"
proof (cases "strptime_date c")
  case None
  then show ?thesis using assms by (simp add: cut_events_before_date_def)
next
  case (Some cd)
  show ?thesis
    using assms unfolding cut_calendar [OF Some] od_keys_def
    by (rule strict_sorted_keys_filter)
qed

lemma fill_calendar_sorted:
  assumes "fill_calendar db ds acc = Inr cal" and "sorted ds"
    and "sorted_wrt (<) (map fst acc)" and "\<forall>k \<in> set (map fst acc). \<forall>d \<in> set ds. k \<le> d"
  shows "sorted_wrt (<) (map fst cal)"
  using assms
proof (induction ds arbitrary: acc)
  case Nil
  then show ?case by simp
next
  case (Cons d ds)
  from Cons.prems(1) obtain events where ev: "map_of db (isoformat d) = Some events"
    and rest: "fill_calendar db ds (od_set acc d events) = Inr cal"
    by (auto split: option.splits)
  have le: "\<forall>k \<in> set (map fst acc). k \<le> d" using Cons.prems(4) by simp
  have s1: "sorted_wrt (<) (map fst (od_set acc d events))"
  proof (cases "d \<in> set (map fst acc)")
    case True
    then show ?thesis using Cons.prems(3) by (simp add: keys_od_set)
  next
    case False
    then have "\<forall>k \<in> set (map fst acc). k < d" using le by (metis order_le_less)
    then show ?thesis using False Cons.prems(3) by (simp add: keys_od_set sorted_wrt_append)
  qed
  have s2: "\<forall>k \<in> set (map fst (od_set acc d events)). \<forall>d' \<in> set ds. k \<le> d'"
    using Cons.prems(2,4) by (auto simp: keys_od_set)
  show ?case
    using Cons.IH [OF rest _ s1 s2] Cons.prems(2) by simp
qed

lemma load_sorted:
  "load_calendar_db file = Inr cal \<Longrightarrow> sorted_wrt (<) (od_keys cal)"
  unfolding od_keys_def
  by (auto simp: load_calendar_db_def split: option.splits sum.splits
           dest!: fill_calendar_sorted)

lemma run_calls_sorted:
  "sorted_wrt (<) (od_keys (calendar_db st)) \<Longrightarrow>
   sorted_wrt (<) (od_keys (calendar_db (run_calls st calls)))"
  unfolding run_calls_def
proof (induction calls arbitrary: st)
  case Nil
  then show ?case by simp
next
  case (Cons c calls)
  have "sorted_wrt (<) (od_keys (calendar_db (apply_call st c)))"
    using Cons.prems by (cases c) (simp_all add: add_event_sorted cut_sorted)
  then show ?case using Cons.IH by simp
qed

text \<open>
  Claim C5. From a manager whose calendar was loaded from the database file, any sequence
  of \<^verbatim>\<open>add_event\<close> and \<^verbatim>\<open>cut_events_before_date\<close> calls, with any arguments, leaves a
  calendar whose keys, in iteration order, are strictly ascending dates.
\<close>

theorem keys_ascending:
  assumes "init_manager file = Inr st0"
  shows "sorted_wrt (<) (od_keys (calendar_db (run_calls st0 calls)))"
proof -
  have "sorted_wrt (<) (od_keys (calendar_db st0))"
    using assms by (auto simp: init_manager_def split: sum.splits dest: load_sorted)
  then show ?thesis by (rule run_calls_sorted)
qed

theorem keys_ascending_witness:
  "init_manager (Some [(''2024-03-01'', [''a'']), (''2024-01-05'', [''b''])])
     = Inr \<lparr>calendar_db = [((2024, 1, 5), [''b'']), ((2024, 3, 1), [''a''])],
            db_file = Some [(''2024-03-01'', [''a'']), (''2024-01-05'', [''b''])]\<rparr>
   \<and> od_keys (calendar_db (run_calls
        \<lparr>calendar_db = [((2024, 1, 5), [''b'']), ((2024, 3, 1), [''a''])],
         db_file = Some [(''2024-03-01'', [''a'']), (''2024-01-05'', [''b''])]\<rparr>
        [AddEvent ''2024-02-01'' ''c'', AddEvent ''2023-12-31'' ''d'',
         CutEventsBeforeDate ''2024-01-01'', AddEvent ''2024-01-02'' ''e'']))
       = [(2024, 1, 2), (2024, 1, 5), (2024, 2, 1), (2024, 3, 1)]
   \<and> sorted_wrt (<) (od_keys (calendar_db (run_calls
        \<lparr>calendar_db = [((2024, 1, 5), [''b'']), ((2024, 3, 1), [''a''])],
         db_file = Some [(''2024-03-01'', [''a'']), (''2024-01-05'', [''b''])]\<rparr>
        [AddEvent ''2024-02-01'' ''c'', AddEvent ''2023-12-31'' ''d'',
         CutEventsBeforeDate ''2024-01-01'', AddEvent ''2024-01-02'' ''e''])))"
proof -
  have h: "init_manager (Some [(''2024-03-01'', [''a'']), (''2024-01-05'', [''b''])])
     = Inr \<lparr>calendar_db = [((2024, 1, 5), [''b'']), ((2024, 3, 1), [''a''])],
            db_file = Some [(''2024-03-01'', [''a'']), (''2024-01-05'', [''b''])]\<rparr>"
    by code_simp
  have k: "od_keys (calendar_db (run_calls
        \<lparr>calendar_db = [((2024, 1, 5), [''b'']), ((2024, 3, 1), [''a''])],
         db_file = Some [(''2024-03-01'', [''a'']), (''2024-01-05'', [''b''])]\<rparr>
        [AddEvent ''2024-02-01'' ''c'', AddEvent ''2023-12-31'' ''d'',
         CutEventsBeforeDate ''2024-01-01'', AddEvent ''2024-01-02'' ''e'']))
       = [(2024, 1, 2), (2024, 1, 5), (2024, 2, 1), (2024, 3, 1)]"
    by code_simp
  show ?thesis
    using h k keys_ascending [OF h] by blast
qed

subsection \<open>Numbers: rounding, products and the whole days of a gap\<close>

lemma round_half_even_bounds:
  "\<lfloor>x\<rfloor> \<le> round_half_even x" "round_half_even x \<le> \<lfloor>x\<rfloor> + 1"
  by (simp_all add: round_half_even_def Let_def)

lemma round_half_even_lower: "of_int n \<le> x \<Longrightarrow> n \<le> round_half_even x"
  using round_half_even_bounds(1) [of x] le_floor_iff [of n x] by linarith


lemma floor_log2_ge_1:
  assumes "1 \<le> a"
  shows "0 \<le> floor_log2 a" and "power_int 2 (floor_log2 a) \<le> a"
proof -
  have pos: "0 < \<lfloor>a\<rfloor>" using assms by simp
  from bitlen_bounds [OF pos] have b: "2 ^ nat (bitlen \<lfloor>a\<rfloor> - 1) \<le> \<lfloor>a\<rfloor>" by simp
  have ge: "1 \<le> bitlen \<lfloor>a\<rfloor>"
    using bitlen_eq_zero_iff [of "\<lfloor>a\<rfloor>"] bitlen_nonneg [of "\<lfloor>a\<rfloor>"] pos by linarith
  then show "0 \<le> floor_log2 a" using assms by (simp add: floor_log2_def)
  have "(of_int (2 ^ nat (bitlen \<lfloor>a\<rfloor> - 1)) :: rat) \<le> of_int \<lfloor>a\<rfloor>"
    using b by (simp only: of_int_le_iff)
  also have "\<dots> \<le> a" by simp
  finally show "power_int 2 (floor_log2 a) \<le> a"
    using assms ge by (simp add: floor_log2_def power_int_def)
qed


lemma round_double_pos:
  assumes "0 < x"
  shows "round_double x =
           (let e = max (floor_log2 x) (- 1022)
            in if 1024 \<le> e then PosInf
               else let q = power_int 2 (e - 52); m = round_half_even (x / q)
                    in if e = 1023 \<and> m = 2 ^ 53 then PosInf else Finite (of_int m * q))"
proof -
  have "x \<noteq> 0" "\<bar>x\<bar> = x" using assms by simp_all
  then show ?thesis
    unfolding round_double_def Let_def by (simp only: assms if_False if_True)
qed

lemma two_powi_split: "(2 ^ 52 :: rat) * power_int 2 (e - 52) = power_int 2 e"
proof -
  have "power_int (2::rat) (52 + (e - 52)) = power_int 2 52 * power_int 2 (e - 52)"
    by (rule power_int_add) simp
  then show ?thesis by simp
qed

lemma round_double_ge_1:
  assumes "1 \<le> x"
  shows "round_double x = PosInf \<or> (\<exists>r. round_double x = Finite r \<and> 1 \<le> r)"
proof -
  define e where "e = floor_log2 x"
  define q :: rat where "q = power_int 2 (e - 52)"
  define m where "m = round_half_even (x / q)"
  have e0: "0 \<le> e" and pe: "power_int 2 e \<le> x"
    using floor_log2_ge_1 [OF assms] by (simp_all add: e_def)
  have mx: "max (floor_log2 x) (- 1022) = e" using e0 by (simp add: e_def)
  have q0: "0 < q" by (simp add: q_def)
  have sp: "2 ^ 52 * q = power_int 2 e" unfolding q_def by (rule two_powi_split)
  have "of_int (2 ^ 52) \<le> x / q"
    using pe sp q0 by (simp add: pos_le_divide_eq)
  then have m52: "2 ^ 52 \<le> m" unfolding m_def by (rule round_half_even_lower)
  have "1 \<le> power_int (2::rat) e" using e0 by (simp add: power_int_def)
  also have "\<dots> = 2 ^ 52 * q" by (rule sp [symmetric])
  also have "\<dots> \<le> of_int m * q"
  proof (rule mult_right_mono)
    have "(of_int (2 ^ 52) :: rat) \<le> of_int m" using m52 by (simp only: of_int_le_iff)
    then show "(2 ^ 52 :: rat) \<le> of_int m" by simp
    show "0 \<le> q" using q0 by simp
  qed
  finally have r1: "1 \<le> of_int m * q" .
  have "0 < x" using assms by simp
  from round_double_pos [OF this]
  have "round_double x = (if 1024 \<le> e then PosInf
                          else if e = 1023 \<and> m = 2 ^ 53 then PosInf else Finite (of_int m * q))"
    by (simp only: Let_def mx q_def m_def)
  then show ?thesis using r1 by (simp split: if_splits)
qed

lemma round_double_nonneg:
  assumes "0 \<le> x" "round_double x = Finite d"
  shows "0 \<le> d"
proof (cases "x = 0")
  case True
  then show ?thesis using assms(2) by (simp add: round_double_def)
next
  case False
  then have pos: "0 < x" using assms(1) by simp
  define q :: rat where "q = power_int 2 (max (floor_log2 x) (- 1022) - 52)"
  have q0: "0 < q" by (simp add: q_def)
  have "of_int 0 \<le> x / q" using pos q0 by simp
  then have "0 \<le> round_half_even (x / q)" by (rule round_half_even_lower)
  then have "0 \<le> of_int (round_half_even (x / q)) * q" using q0 by simp
  moreover from round_double_pos [OF pos]
  have "round_double x = (if 1024 \<le> max (floor_log2 x) (- 1022) then PosInf
                          else if max (floor_log2 x) (- 1022) = 1023
                                  \<and> round_half_even (x / q) = 2 ^ 53 then PosInf
                               else Finite (of_int (round_half_even (x / q)) * q))"
    by (simp only: Let_def q_def)
  ultimately show ?thesis
    using assms(2) by (simp split: if_splits)
qed

lemma round_double_not_NaN: "round_double x \<noteq> NaN"
  by (simp add: round_double_def Let_def)

lemma timedelta_days_Inl:
  assumes "timedelta_days n = Inl err"
  shows "err = OverflowError \<or> (err = ValueError \<and> n = PyFloat NaN)"
  using assms
  by (auto simp: timedelta_days_def Let_def split: number.splits pyfloat.splits if_splits)

lemma timedelta_days_ge_1:
  assumes "num_ge_1 n"
  shows "timedelta_days n = Inl OverflowError \<or> (\<exists>k. timedelta_days n = Inr k \<and> 1 \<le> k)"
proof (cases n)
  case (PyInt k)
  then show ?thesis using assms by (simp add: timedelta_days_def num_ge_1_def)
next
  case (PyFloat f)
  show ?thesis
  proof (cases f)
    case (Finite g)
    then have g: "1 \<le> g" using assms PyFloat by (simp add: num_ge_1_def)
    define fracpart where "fracpart = g - of_int \<lfloor>g\<rfloor>"
    have fr: "0 \<le> fracpart" by (simp add: fracpart_def)
    have ip: "1 \<le> \<lfloor>g\<rfloor>" using g by simp
    show ?thesis
    proof (cases "round_double (of_int US_PER_DAY * fracpart)")
      case (Finite d)
      have "0 \<le> of_int US_PER_DAY * fracpart" using fr by (simp add: US_PER_DAY_def)
      from round_double_nonneg [OF this Finite] have d: "0 \<le> d" .
      define us where "us = round_half_even (of_int (\<lfloor>g\<rfloor> * US_PER_DAY) + d)"
      have "\<lfloor>g\<rfloor> * US_PER_DAY \<le> us"
        unfolding us_def by (rule round_half_even_lower) (use d in simp)
      moreover have "1 * US_PER_DAY \<le> \<lfloor>g\<rfloor> * US_PER_DAY"
        by (rule mult_right_mono) (use ip in \<open>simp_all add: US_PER_DAY_def\<close>)
      ultimately have "US_PER_DAY \<le> us" by simp
      then have "1 \<le> us div US_PER_DAY"
        by (simp add: US_PER_DAY_def pos_imp_zdiv_pos_iff)
      moreover have "timedelta_days n
          = (if \<bar>us div US_PER_DAY\<bar> > 999999999 then Inl OverflowError
             else Inr (us div US_PER_DAY))"
        using g Finite PyFloat \<open>f = Finite g\<close>
        by (simp add: timedelta_days_def Let_def fracpart_def us_def)
      ultimately show ?thesis by simp
    next
      case PosInf
      then show ?thesis using g PyFloat \<open>f = Finite g\<close>
        by (simp add: timedelta_days_def Let_def fracpart_def)
    next
      case NegInf
      then show ?thesis using g PyFloat \<open>f = Finite g\<close>
        by (simp add: timedelta_days_def Let_def fracpart_def)
    next
      case NaN
      then show ?thesis using g PyFloat \<open>f = Finite g\<close>
        by (simp add: timedelta_days_def Let_def fracpart_def)
    qed
  next
    case PosInf
    then show ?thesis using PyFloat by (simp add: timedelta_days_def)
  next
    case NegInf
    then show ?thesis using PyFloat assms by (simp add: num_ge_1_def)
  next
    case NaN
    then show ?thesis using PyFloat assms by (simp add: num_ge_1_def)
  qed
qed

lemma to_float_Inl: "to_float n = Inl err \<Longrightarrow> err = OverflowError"
  by (auto simp: to_float_def split: number.splits pyfloat.splits)

lemma py_mul_Inl: "py_mul a b = Inl err \<Longrightarrow> err = OverflowError"
  by (auto simp: py_mul_def dest: to_float_Inl split: number.splits sum.splits)

lemma to_float_ge_1:
  assumes "num_ge_1 n"
  shows "to_float n = Inl OverflowError \<or> (\<exists>f. to_float n = Inr f \<and> num_ge_1 (PyFloat f))"
proof (cases n)
  case (PyInt k)
  then have "(1::rat) \<le> of_int k" using assms by (simp add: num_ge_1_def)
  from round_double_ge_1 [OF this] show ?thesis
    using PyInt by (auto simp: to_float_def num_ge_1_def)
next
  case (PyFloat f)
  then show ?thesis using assms by (simp add: to_float_def)
qed

lemma float_mul_ge_1:
  assumes "num_ge_1 (PyFloat f)" "num_ge_1 (PyFloat g)"
  shows "num_ge_1 (PyFloat (float_mul f g))"
proof (cases "\<exists>x y. f = Finite x \<and> g = Finite y")
  case True
  then obtain x y where f: "f = Finite x" and g: "g = Finite y" by blast
  have "1 * 1 \<le> x * y"
    by (rule mult_mono) (use assms f g in \<open>simp_all add: num_ge_1_def\<close>)
  then have "1 \<le> x * y" by simp
  from round_double_ge_1 [OF this] show ?thesis
    using f g by (auto simp: float_mul_def num_ge_1_def)
next
  case False
  then show ?thesis
    using assms
    by (cases f; cases g) (simp_all add: float_mul_def float_sign_def num_ge_1_def)
qed

lemma py_mul_ge_1:
  assumes "num_ge_1 a" "num_ge_1 b"
  shows "py_mul a b = Inl OverflowError \<or> (\<exists>c. py_mul a b = Inr c \<and> num_ge_1 c)"
proof (cases "\<exists>i j. a = PyInt i \<and> b = PyInt j")
  case True
  then obtain i j where a: "a = PyInt i" and b: "b = PyInt j" by blast
  have "1 * 1 \<le> i * j"
    by (rule mult_mono) (use assms a b in \<open>simp_all add: num_ge_1_def\<close>)
  then show ?thesis using a b by (simp add: py_mul_def num_ge_1_def)
next
  case False
  then have pm: "py_mul a b = (case to_float a of
                Inl e \<Rightarrow> Inl e
              | Inr f \<Rightarrow> (case to_float b of
                           Inl e \<Rightarrow> Inl e
                         | Inr g \<Rightarrow> Inr (PyFloat (float_mul f g))))"
    by (cases a; cases b) (auto simp: py_mul_def)
  from to_float_ge_1 [OF assms(1)] to_float_ge_1 [OF assms(2)] show ?thesis
    using float_mul_ge_1 by (auto simp: pm)
qed

lemma date_add_timedelta_Inl:
  assumes "date_add_timedelta dt n = Inl err"
  shows "err = OverflowError \<or> (err = ValueError \<and> n = PyFloat NaN)"
  using assms timedelta_days_Inl [of n err]
  by (auto simp: date_add_timedelta_def date_add_days_def Let_def split: sum.splits if_splits)

lemma date_add_timedelta_Inr:
  assumes "date_add_timedelta dt n = Inr dt'"
  shows "\<exists>k. timedelta_days n = Inr k \<and> date_add_days dt k = Inr dt'"
  using assms by (auto simp: date_add_timedelta_def split: sum.splits)




subsection \<open>The scheduling loop and its dates\<close>

lemma date_add_days_Inl: "date_add_days dt k = Inl e \<Longrightarrow> e = OverflowError"
  by (auto simp: date_add_days_def Let_def split: if_splits)

lemma add_events_Cons:
  "add_events st (d # ds) ev =
     (fst (add_event st (isoformat d) ev) # fst (add_events (snd (add_event st (isoformat d) ev)) ds ev),
      snd (add_events (snd (add_event st (isoformat d) ev)) ds ev))"
  by (simp split: prod.splits)

lemma add_events_length: "length (fst (add_events st ds ev)) = length ds"
  by (induction ds arbitrary: st) (simp_all add: add_events_Cons del: add_events.simps(2))

lemma loop_follows_schedule:
  assumes "schedule b e cur gap = Some r"
  shows "add_multiple_loop ev b e cur gap out st
           = Some (case snd r of
                     None \<Rightarrow> Inr (out @ fst (add_events st (fst r) ev))
                   | Some err \<Rightarrow> Inl err,
                   snd (add_events st (fst r) ev))"
  using assms
proof (induction arbitrary: out st rule: schedule.raw_induct [rotated 1, consumes 1, case_names step])
  case (step sched b e cur gap r)
  show ?case
  proof (cases "cur \<le> e")
    case False
    with step(2) show ?thesis by (auto simp: add_multiple_loop.simps)
  next
    case True
    obtain result st1 where ae: "add_event st (isoformat cur) ev = (result, st1)"
      by (cases "add_event st (isoformat cur) ev")
    show ?thesis
    proof (cases "date_add_timedelta cur gap")
      case (Inl err)
      with step(2) True ae show ?thesis
        by (auto simp: add_multiple_loop.simps)
    next
      case (Inr nxt)
      show ?thesis
      proof (cases "py_mul gap b")
        case (Inl err)
        with step(2) True ae Inr show ?thesis
          by (auto simp: add_multiple_loop.simps)
      next
        case gp: (Inr gap')
        from step(2) True Inr gp obtain r' where s: "sched b e nxt gap' = Some r'"
          and r: "r = (cur # fst r', snd r')"
          by (auto simp: bind_eq_Some_conv)
        from step(1) [OF s, of "out @ [result]" st1] True Inr gp ae r
        show ?thesis
          by (simp add: add_multiple_loop.simps [of ev b e cur] split: prod.splits option.splits)
      qed
    qed
  qed
qed

lemma schedule_terminates:
  assumes "num_ge_1 b" "num_ge_1 gap" "valid_date cur" "valid_date e"
  shows "\<exists>ds res. schedule b e cur gap = Some (ds, res)
           \<and> sorted_wrt (<) ds
           \<and> (\<forall>d \<in> set ds. valid_date d \<and> cur \<le> d \<and> d \<le> e)
           \<and> int (length ds) \<le> max 0 (toordinal e - toordinal cur + 1)
           \<and> (res = None \<or> res = Some OverflowError)"
  using assms(2,3)
proof (induction "nat (toordinal e + 1 - toordinal cur)" arbitrary: cur gap rule: less_induct)
  case less
  show ?case
  proof (cases "cur \<le> e")
    case False
    then have "schedule b e cur gap = Some ([], None)"
      by (simp add: schedule.simps [of b e cur gap])
    then show ?thesis by auto
  next
    case True
    then have ord: "toordinal cur \<le> toordinal e"
      using toordinal_le_iff [OF less.prems(2) assms(4)] by simp
    have stop: ?thesis if "schedule b e cur gap = Some ([cur], Some OverflowError)"
      using that True less.prems(2) ord by auto
    show ?thesis
    proof (cases "date_add_timedelta cur gap")
      case (Inl err)
      then have "err = OverflowError"
        using date_add_timedelta_Inl [OF Inl] less.prems(1) by (auto simp: num_ge_1_def)
      then have "schedule b e cur gap = Some ([cur], Some OverflowError)"
        using True Inl by (simp add: schedule.simps [of b e cur gap])
      then show ?thesis by (rule stop)
    next
      case (Inr nxt)
      from date_add_timedelta_Inr [OF Inr] obtain k where
        k: "timedelta_days gap = Inr k" and add: "date_add_days cur k = Inr nxt" by blast
      have k1: "1 \<le> k" using timedelta_days_ge_1 [OF less.prems(1)] k by simp
      note p = date_add_days_Inr [OF add]
      have gt: "toordinal cur < toordinal nxt" using p(2) k1 by simp
      then have lt: "cur < nxt"
        using toordinal_le_iff [OF p(1) less.prems(2)] by (simp add: not_le [symmetric])
      from py_mul_ge_1 [OF less.prems(1) assms(1)] show ?thesis
      proof
        assume "py_mul gap b = Inl OverflowError"
        then have "schedule b e cur gap = Some ([cur], Some OverflowError)"
          using True Inr by (simp add: schedule.simps [of b e cur gap])
        then show ?thesis by (rule stop)
      next
        assume "\<exists>c. py_mul gap b = Inr c \<and> num_ge_1 c"
        then obtain gap' where gp: "py_mul gap b = Inr gap'" and g: "num_ge_1 gap'" by blast
        have m: "nat (toordinal e + 1 - toordinal nxt) < nat (toordinal e + 1 - toordinal cur)"
          using gt ord by simp
        from less.hyps [OF m g p(1)] obtain ds res where
          s: "schedule b e nxt gap' = Some (ds, res)" and
          so: "sorted_wrt (<) ds" and
          al: "\<forall>d \<in> set ds. valid_date d \<and> nxt \<le> d \<and> d \<le> e" and
          le: "int (length ds) \<le> max 0 (toordinal e - toordinal nxt + 1)" and
          rs: "res = None \<or> res = Some OverflowError"
          by blast
        have "schedule b e cur gap = Some (cur # ds, res)"
          using True Inr gp s by (simp add: schedule.simps [of b e cur])
        moreover have "sorted_wrt (<) (cur # ds)" using so al lt by auto
        moreover have "\<forall>d \<in> set (cur # ds). valid_date d \<and> cur \<le> d \<and> d \<le> e"
          using al lt True less.prems(2) by auto
        moreover have "int (length (cur # ds)) \<le> max 0 (toordinal e - toordinal cur + 1)"
          using le gt ord by simp
        ultimately show ?thesis using rs by blast
      qed
    qed
  qed
qed

lemma unit_gap:
  assumes "gap = PyInt 1 \<or> gap = PyFloat (Finite 1)" "b = PyInt 1 \<or> b = PyFloat (Finite 1)"
  shows "timedelta_days gap = Inr 1"
    and "\<exists>gap'. py_mul gap b = Inr gap' \<and> (gap' = PyInt 1 \<or> gap' = PyFloat (Finite 1))"
proof -
  have "timedelta_days (PyInt 1) = Inr 1" "timedelta_days (PyFloat (Finite 1)) = Inr 1"
    by code_simp+
  then show "timedelta_days gap = Inr 1" using assms(1) by auto
  have "py_mul (PyInt 1) (PyInt 1) = Inr (PyInt 1)"
    "py_mul (PyInt 1) (PyFloat (Finite 1)) = Inr (PyFloat (Finite 1))"
    "py_mul (PyFloat (Finite 1)) (PyInt 1) = Inr (PyFloat (Finite 1))"
    "py_mul (PyFloat (Finite 1)) (PyFloat (Finite 1)) = Inr (PyFloat (Finite 1))"
    by code_simp+
  then show "\<exists>gap'. py_mul gap b = Inr gap' \<and> (gap' = PyInt 1 \<or> gap' = PyFloat (Finite 1))"
    using assms by auto
qed

lemma schedule_daily:
  assumes "valid_date cur" "valid_date e" "toordinal e < MAXORDINAL"
    and "b = PyInt 1 \<or> b = PyFloat (Finite 1)" "gap = PyInt 1 \<or> gap = PyFloat (Finite 1)"
  shows "schedule b e cur gap = Some (map fromordinal [toordinal cur .. toordinal e], None)"
  using assms(1,5)
proof (induction "nat (toordinal e + 1 - toordinal cur)" arbitrary: cur gap rule: less_induct)
  case less
  show ?case
  proof (cases "cur \<le> e")
    case False
    then have "toordinal e < toordinal cur"
      using toordinal_le_iff [OF less.prems(1) assms(2)] by simp
    then show ?thesis using False by (simp add: schedule.simps [of b e cur gap])
  next
    case True
    then have ord: "toordinal cur \<le> toordinal e"
      using toordinal_le_iff [OF less.prems(1) assms(2)] by simp
    have lo: "1 \<le> toordinal cur" using toordinal_range(1) [OF less.prems(1)] .
    have "date_add_days cur 1 = Inr (fromordinal (toordinal cur + 1))"
      using ord assms(3) lo by (simp add: date_add_days_def Let_def)
    note p = date_add_days_Inr [OF this]
    have add: "date_add_timedelta cur gap = Inr (fromordinal (toordinal cur + 1))"
      using \<open>date_add_days cur 1 = Inr (fromordinal (toordinal cur + 1))\<close>
        unit_gap(1) [OF less.prems(2) assms(4)]
      by (simp add: date_add_timedelta_def)
    from unit_gap(2) [OF less.prems(2) assms(4)] obtain gap' where
      gp: "py_mul gap b = Inr gap'" and g: "gap' = PyInt 1 \<or> gap' = PyFloat (Finite 1)"
      by blast
    have m: "nat (toordinal e + 1 - toordinal (fromordinal (toordinal cur + 1)))
               < nat (toordinal e + 1 - toordinal cur)"
      using p(2) ord by simp
    have "schedule b e cur gap
            = Some (cur # map fromordinal [toordinal cur + 1 .. toordinal e], None)"
      using True add gp less.hyps [OF m p(1) g] p(2) by (simp add: schedule.simps [of b e cur])
    then show ?thesis
      using ord fromordinal_toordinal [OF less.prems(1)] by (simp add: upto_rec1 [of "toordinal cur"])
  qed
qed

lemma loop_Some_schedule:
  assumes "add_multiple_loop ev b e cur gap out st = Some r"
  shows "\<exists>r'. schedule b e cur gap = Some r'"
  using assms
proof (induction rule: add_multiple_loop.raw_induct [rotated 1, consumes 1, case_names step])
  case (step lp ev b e cur gap out st r)
  show ?case
  proof (cases "cur \<le> e")
    case False
    then show ?thesis by (auto simp: schedule.simps [of b e cur gap])
  next
    case True
    obtain result st1 where ae: "add_event st (isoformat cur) ev = (result, st1)"
      by (cases "add_event st (isoformat cur) ev")
    show ?thesis
    proof (cases "date_add_timedelta cur gap")
      case (Inl err)
      then show ?thesis using True by (auto simp: schedule.simps [of b e cur gap])
    next
      case (Inr nxt)
      show ?thesis
      proof (cases "py_mul gap b")
        case (Inl err)
        then show ?thesis using True Inr by (auto simp: schedule.simps [of b e cur gap])
      next
        case gp: (Inr gap')
        from step(2) True ae Inr gp have "lp ev b e nxt gap' (out @ [result]) st1 = Some r"
          by simp
        from step(1) [OF this] obtain r' where "schedule b e nxt gap' = Some r'" by blast
        then show ?thesis using True Inr gp by (auto simp: schedule.simps [of b e cur gap])
      qed
    qed
  qed
qed

lemma schedule_valid:
  assumes "schedule b e cur gap = Some r" "valid_date cur"
  shows "\<forall>d \<in> set (fst r). valid_date d"
  using assms
proof (induction rule: schedule.raw_induct [rotated 1, consumes 1, case_names step])
  case (step sched b e cur gap r)
  show ?case
  proof (cases "cur \<le> e")
    case False
    with step(2) show ?thesis by auto
  next
    case True
    show ?thesis
    proof (cases "date_add_timedelta cur gap")
      case (Inl err)
      with step(2,3) True show ?thesis by auto
    next
      case (Inr nxt)
      from date_add_timedelta_Inr [OF Inr] obtain k where
        add: "date_add_days cur k = Inr nxt" by blast
      show ?thesis
      proof (cases "py_mul gap b")
        case (Inl err)
        with step(2,3) True Inr show ?thesis by auto
      next
        case gp: (Inr gap')
        from step(2) True Inr gp obtain r' where s: "sched b e nxt gap' = Some r'"
          and r: "r = (cur # fst r', snd r')"
          by (auto simp: bind_eq_Some_conv)
        from step(1) [OF s date_add_days_Inr(1) [OF add]] step(3) r show ?thesis by simp
      qed
    qed
  qed
qed

lemma add_event_isoformat:
  assumes "valid_date d"
  shows "fst (add_event st (isoformat d) ev) = msg_added (isoformat d) ev
       \<or> fst (add_event st (isoformat d) ev) = msg_duplicate (isoformat d) ev"
  using strptime_isoformat [OF assms]
  by (auto simp: add_event_def Let_def split: option.splits prod.splits)

lemma add_events_outcomes:
  assumes "\<forall>d \<in> set ds. valid_date d"
  shows "list_all2 (\<lambda>d out. out = msg_added (isoformat d) ev \<or> out = msg_duplicate (isoformat d) ev)
           ds (fst (add_events st ds ev))"
  using assms
proof (induction ds arbitrary: st)
  case Nil
  then show ?case by simp
next
  case (Cons d ds)
  then show ?case
    using add_event_isoformat [of d st ev]
    by (simp add: add_events_Cons del: add_events.simps(2))
qed

lemma msg_invalid_distinct:
  "msg_added date ev \<noteq> msg_invalid" "msg_duplicate date ev \<noteq> msg_invalid"
  by (simp_all add: msg_added_def msg_duplicate_def msg_invalid_def)

lemma add_multiple_from_schedule:
  assumes "date_add_days d (365 * 30) = Inr e" "schedule b e d (PyInt 1) = Some (ds, res)"
  shows "add_multiple_from st ev b d
           = Some (case res of
                     None \<Rightarrow> Inr (join newline (fst (add_events st ds ev)))
                   | Some err \<Rightarrow> Inl err,
                   snd (add_events st ds ev))"
  using assms(1) loop_follows_schedule [OF assms(2), of ev "[]" st]
  by (simp add: add_multiple_from_def del: add_events.simps split: option.splits)

lemma add_multiple_start:
  assumes "strptime_date s = Some d"
  shows "add_multiple today st ev b (Some s) = add_multiple_from st ev b d"
  using assms by (simp add: add_multiple_def)





text \<open>
  Claim C3. With base 2, given as the integer \<^verbatim>\<open>2\<close> or as the float \<^verbatim>\<open>2.0\<close>, and start date
  2024-01-01, \<^verbatim>\<open>add_multiple\<close> is the sequence of
  \<^verbatim>\<open>add_event\<close> calls on the fourteen dates listed, and nothing else. Their distances
  from the start date are 0, 1, 3, 7, 15, 31, 63, ..., 8191 days, that is \<open>2 ^ n - 1\<close> for
  \<open>n = 0, ..., 13\<close>, each the previous one plus the next power of 2; the next one,
  \<open>2 ^ 14 - 1\<close>, lies beyond the end date of the run. The outcome list has one entry
  per call, and the method returns its lines joined.
\<close>

theorem add_multiple_base_2:
  "(let ds = [(2024, 1, 1), (2024, 1, 2), (2024, 1, 4), (2024, 1, 8), (2024, 1, 16), (2024, 2, 1),
              (2024, 3, 4), (2024, 5, 7), (2024, 9, 12), (2025, 5, 26), (2026, 10, 20),
              (2029, 8, 9), (2035, 3, 19), (2046, 6, 5)]
    in add_multiple today st ev (PyInt 2) (Some ''2024-01-01'')
         = Some (Inr (join newline (fst (add_events st ds ev))), snd (add_events st ds ev))
       \<and> add_multiple today st ev (PyFloat (Finite 2)) (Some ''2024-01-01'')
         = Some (Inr (join newline (fst (add_events st ds ev))), snd (add_events st ds ev))
       \<and> length (fst (add_events st ds ev)) = length ds
       \<and> map (\<lambda>d. toordinal d - toordinal (2024, 1, 1)) ds
           = [0, 1, 3, 7, 15, 31, 63, 127, 255, 511, 1023, 2047, 4095, 8191]
       \<and> map (\<lambda>d. toordinal d - toordinal (2024, 1, 1)) ds = map (\<lambda>n. 2 ^ n - 1) [0..<14]
       \<and> date_add_days (2024, 1, 1) (365 * 30) = Inr (2053, 12, 24)
       \<and> toordinal (2053, 12, 24) - toordinal (2024, 1, 1) < 2 ^ 14 - 1)"
proof -
  let ?ds = "[(2024, 1, 1), (2024, 1, 2), (2024, 1, 4), (2024, 1, 8), (2024, 1, 16), (2024, 2, 1),
              (2024, 3, 4), (2024, 5, 7), (2024, 9, 12), (2025, 5, 26), (2026, 10, 20),
              (2029, 8, 9), (2035, 3, 19), (2046, 6, 5)] :: date list"
  have h1: "strptime_date ''2024-01-01'' = Some (2024, 1, 1)" by code_simp
  have h2: "date_add_days (2024, 1, 1) (365 * 30) = Inr (2053, 12, 24)" by code_simp
  have h3: "schedule (PyInt 2) (2053, 12, 24) (2024, 1, 1) (PyInt 1) = Some (?ds, None)"
    by code_simp
  have h4: "schedule (PyFloat (Finite 2)) (2053, 12, 24) (2024, 1, 1) (PyInt 1) = Some (?ds, None)"
    by code_simp
  have c3: "map (\<lambda>d. toordinal d - toordinal (2024, 1, 1)) ?ds
              = [0, 1, 3, 7, 15, 31, 63, 127, 255, 511, 1023, 2047, 4095, 8191]"
    by code_simp
  have c4: "map (\<lambda>d. toordinal d - toordinal (2024, 1, 1)) ?ds = map (\<lambda>n. 2 ^ n - 1) [0..<14]"
    by code_simp
  have c6: "toordinal (2053, 12, 24) - toordinal (2024, 1, 1) < 2 ^ 14 - 1" by code_simp
  have c1: "add_multiple today st ev (PyInt 2) (Some ''2024-01-01'')
              = Some (Inr (join newline (fst (add_events st ?ds ev))), snd (add_events st ?ds ev))"
    using add_multiple_from_schedule [OF h2 h3, of st ev]
    by (simp only: add_multiple_start [OF h1] option.case)
  have c1': "add_multiple today st ev (PyFloat (Finite 2)) (Some ''2024-01-01'')
              = Some (Inr (join newline (fst (add_events st ?ds ev))), snd (add_events st ?ds ev))"
    using add_multiple_from_schedule [OF h2 h4, of st ev]
    by (simp only: add_multiple_start [OF h1] option.case)
  have c2: "length (fst (add_events st ?ds ev)) = length ?ds" by (rule add_events_length)
  show ?thesis
    unfolding Let_def by (intro conjI c1 c1' c2 c3 c4 h2 c6)
qed

theorem add_multiple_base_2_witness:
  "(let ds = [(2024, 1, 1), (2024, 1, 2), (2024, 1, 4), (2024, 1, 8), (2024, 1, 16), (2024, 2, 1),
              (2024, 3, 4), (2024, 5, 7), (2024, 9, 12), (2025, 5, 26), (2026, 10, 20),
              (2029, 8, 9), (2035, 3, 19), (2046, 6, 5)]
    in add_multiple (2024, 6, 1) \<lparr>calendar_db = [], db_file = None\<rparr> ''Review X'' (PyInt 2)
           (Some ''2024-01-01'')
         = Some (Inr (join newline
                   (fst (add_events \<lparr>calendar_db = [], db_file = None\<rparr> ds ''Review X''))),
                 snd (add_events \<lparr>calendar_db = [], db_file = None\<rparr> ds ''Review X''))
       \<and> add_multiple (2024, 6, 1) \<lparr>calendar_db = [], db_file = None\<rparr> ''Review X''
           (PyFloat (Finite 2)) (Some ''2024-01-01'')
         = Some (Inr (join newline
                   (fst (add_events \<lparr>calendar_db = [], db_file = None\<rparr> ds ''Review X''))),
                 snd (add_events \<lparr>calendar_db = [], db_file = None\<rparr> ds ''Review X''))
       \<and> length (fst (add_events \<lparr>calendar_db = [], db_file = None\<rparr> ds ''Review X''))
           = length ds
       \<and> map (\<lambda>d. toordinal d - toordinal (2024, 1, 1)) ds
           = [0, 1, 3, 7, 15, 31, 63, 127, 255, 511, 1023, 2047, 4095, 8191]
       \<and> map (\<lambda>d. toordinal d - toordinal (2024, 1, 1)) ds = map (\<lambda>n. 2 ^ n - 1) [0..<14]
       \<and> date_add_days (2024, 1, 1) (365 * 30) = Inr (2053, 12, 24)
       \<and> toordinal (2053, 12, 24) - toordinal (2024, 1, 1) < 2 ^ 14 - 1)"
  by (rule add_multiple_base_2)

text \<open>
  Claim C2, at the start date 2024-01-01 with base 1, given as the integer \<^verbatim>\<open>1\<close> or as the
  float \<^verbatim>\<open>1.0\<close>. The run is one \<^verbatim>\<open>add_event\<close> call
  per day from the start date up to the end date that the method computes,
  \<^verbatim>\<open>start + timedelta(days=365 * 30)\<close>. That end date is 2053-12-24: 10951 calls, the
  last one for 2053-12-24, none for 2054-01-01, which is 10958 days after the start.
\<close>

theorem add_multiple_daily_2024:
  "(let ds = map fromordinal [toordinal (2024, 1, 1) .. toordinal (2024, 1, 1) + 365 * 30]
    in add_multiple today st ev (PyInt 1) (Some ''2024-01-01'')
         = Some (Inr (join newline (fst (add_events st ds ev))), snd (add_events st ds ev))
       \<and> add_multiple today st ev (PyFloat (Finite 1)) (Some ''2024-01-01'')
         = Some (Inr (join newline (fst (add_events st ds ev))), snd (add_events st ds ev))
       \<and> length ds = 10951
       \<and> last ds = (2053, 12, 24)
       \<and> (2054, 1, 1) \<notin> set ds
       \<and> date_add_days (2024, 1, 1) (365 * 30) = Inr (2053, 12, 24)
       \<and> toordinal (2054, 1, 1) - toordinal (2024, 1, 1) = 10958)"
proof -
  let ?cur = "(2024, 1, 1) :: date" and ?e = "(2053, 12, 24) :: date"
  let ?ds = "map fromordinal [toordinal ?cur .. toordinal ?e]"
  have h1: "strptime_date ''2024-01-01'' = Some ?cur" by code_simp
  have h2: "date_add_days ?cur (365 * 30) = Inr ?e" by code_simp
  have v1: "valid_date ?cur" by code_simp
  have v2: "valid_date ?e" by code_simp
  have eq: "toordinal ?cur + 365 * 30 = toordinal ?e" by code_simp
  have lt: "toordinal ?e < MAXORDINAL" by code_simp
  have c6: "toordinal (2054, 1, 1) - toordinal ?cur = 10958" by code_simp
  have s: "schedule (PyInt 1) ?e ?cur (PyInt 1) = Some (?ds, None)"
    by (rule schedule_daily [OF v1 v2 lt]) simp_all
  have s': "schedule (PyFloat (Finite 1)) ?e ?cur (PyInt 1) = Some (?ds, None)"
    by (rule schedule_daily [OF v1 v2 lt]) simp_all
  have c1: "add_multiple today st ev (PyInt 1) (Some ''2024-01-01'')
              = Some (Inr (join newline (fst (add_events st ?ds ev))), snd (add_events st ?ds ev))"
    using add_multiple_from_schedule [OF h2 s, of st ev]
    by (simp only: add_multiple_start [OF h1] option.case)
  have c1': "add_multiple today st ev (PyFloat (Finite 1)) (Some ''2024-01-01'')
              = Some (Inr (join newline (fst (add_events st ?ds ev))), snd (add_events st ?ds ev))"
    using add_multiple_from_schedule [OF h2 s', of st ev]
    by (simp only: add_multiple_start [OF h1] option.case)
  have "int (length ?ds) = toordinal ?e - toordinal ?cur + 1"
    using eq by (simp only: length_map length_upto)
  then have c2: "length ?ds = 10951" using eq by simp
  have one: "num_ge_1 (PyInt 1)" by (simp add: num_ge_1_def)
  from schedule_terminates [OF one one v1 v2] s
  have le: "\<forall>d \<in> set ?ds. d \<le> ?e" by auto
  have c4: "(2054, 1, 1) \<notin> set ?ds"
  proof
    assume "(2054, 1, 1) \<in> set ?ds"
    with le have "(2054, 1, 1) \<le> ?e" by blast
    then show False by simp
  qed
  have "toordinal ?cur \<le> toordinal ?e" using eq by simp
  then have "[toordinal ?cur .. toordinal ?e] = [toordinal ?cur .. toordinal ?e - 1] @ [toordinal ?e]"
    by (rule upto_rec2)
  then have "last ?ds = fromordinal (toordinal ?e)"
    by (metis last_map last_snoc snoc_eq_iff_butlast)
  then have c3: "last ?ds = ?e" by (simp only: fromordinal_toordinal [OF v2])
  show ?thesis
    unfolding Let_def eq by (intro conjI c1 c1' c2 c3 c4 h2 c6)
qed

theorem add_multiple_daily_2024_witness:
  "(let ds = map fromordinal [toordinal (2024, 1, 1) .. toordinal (2024, 1, 1) + 365 * 30]
    in add_multiple (2024, 6, 1) \<lparr>calendar_db = [], db_file = None\<rparr> ''Y'' (PyInt 1)
           (Some ''2024-01-01'')
         = Some (Inr (join newline
                   (fst (add_events \<lparr>calendar_db = [], db_file = None\<rparr> ds ''Y''))),
                 snd (add_events \<lparr>calendar_db = [], db_file = None\<rparr> ds ''Y''))
       \<and> add_multiple (2024, 6, 1) \<lparr>calendar_db = [], db_file = None\<rparr> ''Y''
           (PyFloat (Finite 1)) (Some ''2024-01-01'')
         = Some (Inr (join newline
                   (fst (add_events \<lparr>calendar_db = [], db_file = None\<rparr> ds ''Y''))),
                 snd (add_events \<lparr>calendar_db = [], db_file = None\<rparr> ds ''Y''))
       \<and> length ds = 10951
       \<and> last ds = (2053, 12, 24)
       \<and> (2054, 1, 1) \<notin> set ds
       \<and> date_add_days (2024, 1, 1) (365 * 30) = Inr (2053, 12, 24)
       \<and> toordinal (2054, 1, 1) - toordinal (2024, 1, 1) = 10958)"
  by (rule add_multiple_daily_2024)

subsection \<open>Termination and outcomes of the scheduling loop\<close>







lemma float_mul_keeps:
  assumes "g \<noteq> NaN" "f \<noteq> NaN"
    and "g = PosInf \<or> g = NegInf \<longrightarrow> f \<noteq> Finite 0"
    and "g = Finite 0 \<longrightarrow> f \<noteq> PosInf \<and> f \<noteq> NegInf"
  shows "float_mul g f \<noteq> NaN"
    and "float_mul g f = PosInf \<or> float_mul g f = NegInf \<longrightarrow> f \<noteq> Finite 0"
    and "float_mul g f = Finite 0 \<longrightarrow> f \<noteq> PosInf \<and> f \<noteq> NegInf"
proof -
  have z: "round_double 0 = Finite 0" by (simp add: round_double_def)
  show "float_mul g f \<noteq> NaN"
    using assms round_double_not_NaN
    by (cases g; cases f) (auto simp: float_mul_def float_sign_def)
  show "float_mul g f = PosInf \<or> float_mul g f = NegInf \<longrightarrow> f \<noteq> Finite 0"
    using assms z
    by (cases g; cases f) (auto simp: float_mul_def float_sign_def)
  show "float_mul g f = Finite 0 \<longrightarrow> f \<noteq> PosInf \<and> f \<noteq> NegInf"
    using assms
    by (cases g; cases f) (auto simp: float_mul_def float_sign_def)
qed

lemma gap_keeps:
  assumes "f \<noteq> NaN"
    and "gap = PyInt 1 \<or> (\<exists>g. gap = PyFloat g \<and> g \<noteq> NaN
           \<and> (g = PosInf \<or> g = NegInf \<longrightarrow> f \<noteq> Finite 0)
           \<and> (g = Finite 0 \<longrightarrow> f \<noteq> PosInf \<and> f \<noteq> NegInf))"
    and "py_mul gap (PyFloat f) = Inr gap'"
  shows "\<exists>g. gap' = PyFloat g \<and> g \<noteq> NaN
           \<and> (g = PosInf \<or> g = NegInf \<longrightarrow> f \<noteq> Finite 0)
           \<and> (g = Finite 0 \<longrightarrow> f \<noteq> PosInf \<and> f \<noteq> NegInf)"
proof -
  have one: "to_float (PyInt 1) = Inr (Finite 1)" by code_simp
  obtain g where g: "gap' = PyFloat (float_mul g f)" "g \<noteq> NaN"
    "g = PosInf \<or> g = NegInf \<longrightarrow> f \<noteq> Finite 0"
    "g = Finite 0 \<longrightarrow> f \<noteq> PosInf \<and> f \<noteq> NegInf"
    using assms(2)
  proof
    assume "gap = PyInt 1"
    then have "gap' = PyFloat (float_mul (Finite 1) f)"
      using assms(3) one by (simp add: py_mul_def to_float_def)
    then show ?thesis using that [of "Finite 1"] by simp
  next
    assume "\<exists>g. gap = PyFloat g \<and> g \<noteq> NaN
           \<and> (g = PosInf \<or> g = NegInf \<longrightarrow> f \<noteq> Finite 0)
           \<and> (g = Finite 0 \<longrightarrow> f \<noteq> PosInf \<and> f \<noteq> NegInf)"
    then obtain g where "gap = PyFloat g" "g \<noteq> NaN"
      "g = PosInf \<or> g = NegInf \<longrightarrow> f \<noteq> Finite 0"
      "g = Finite 0 \<longrightarrow> f \<noteq> PosInf \<and> f \<noteq> NegInf"
      by blast
    moreover from this(1) have "gap' = PyFloat (float_mul g f)"
      using assms(3) by (simp add: py_mul_def to_float_def)
    ultimately show ?thesis using that [of g] by blast
  qed
  from float_mul_keeps [OF g(2) assms(1) g(3) g(4)] g(1) show ?thesis by blast
qed

lemma schedule_errors_int:
  assumes "schedule b e cur gap = Some r" "b = PyInt j" "gap = PyInt i" "snd r = Some err"
  shows "err = OverflowError"
  using assms
proof (induction arbitrary: i rule: schedule.raw_induct [rotated 1, consumes 1, case_names step])
  case (step sched b e cur gap r)
  show ?case
  proof (cases "cur \<le> e")
    case False
    with step(2,5) show ?thesis by auto
  next
    case True
    show ?thesis
    proof (cases "date_add_timedelta cur gap")
      case (Inl x)
      then have "r = ([cur], Some x)" using step(2) True by simp
      then show ?thesis using date_add_timedelta_Inl [OF Inl] step(4,5) by auto
    next
      case (Inr nxt)
      have gp: "py_mul gap b = Inr (PyInt (i * j))" using step(3,4) by (simp add: py_mul_def)
      from step(2) True Inr gp obtain r' where s: "sched b e nxt (PyInt (i * j)) = Some r'"
        and r: "r = (cur # fst r', snd r')"
        by (auto simp: bind_eq_Some_conv)
      from step(1) [OF s step(3) refl] r step(5) show ?thesis by simp
    qed
  qed
qed

lemma schedule_errors_float:
  assumes "schedule b e cur gap = Some r" "b = PyFloat f" "f \<noteq> NaN"
    and "gap = PyInt 1 \<or> (\<exists>g. gap = PyFloat g \<and> g \<noteq> NaN
           \<and> (g = PosInf \<or> g = NegInf \<longrightarrow> f \<noteq> Finite 0)
           \<and> (g = Finite 0 \<longrightarrow> f \<noteq> PosInf \<and> f \<noteq> NegInf))"
    and "snd r = Some err"
  shows "err = OverflowError"
  using assms
proof (induction rule: schedule.raw_induct [rotated 1, consumes 1, case_names step])
  case (step sched b e cur gap r)
  have nn: "gap \<noteq> PyFloat NaN" using step(5) by auto
  show ?case
  proof (cases "cur \<le> e")
    case False
    with step(2,6) show ?thesis by auto
  next
    case True
    show ?thesis
    proof (cases "date_add_timedelta cur gap")
      case (Inl x)
      then have "r = ([cur], Some x)" using step(2) True by simp
      then show ?thesis using date_add_timedelta_Inl [OF Inl] nn step(6) by auto
    next
      case (Inr nxt)
      show ?thesis
      proof (cases "py_mul gap b")
        case (Inl x)
        then have "r = ([cur], Some x)" using step(2) True Inr by simp
        then show ?thesis using py_mul_Inl [OF Inl] step(6) by auto
      next
        case gp: (Inr gap')
        from step(2) True Inr gp obtain r' where s: "sched b e nxt gap' = Some r'"
          and r: "r = (cur # fst r', snd r')"
          by (auto simp: bind_eq_Some_conv)
        from gap_keeps [OF step(4) step(5)] gp step(3)
        have k: "\<exists>g. gap' = PyFloat g \<and> g \<noteq> NaN
           \<and> (g = PosInf \<or> g = NegInf \<longrightarrow> f \<noteq> Finite 0)
           \<and> (g = Finite 0 \<longrightarrow> f \<noteq> PosInf \<and> f \<noteq> NegInf)"
          by simp
        from step(1) [OF s step(3) step(4)] k r step(6) show ?thesis by simp
      qed
    qed
  qed
qed

lemma schedule_errors_any:
  assumes "schedule b e cur gap = Some r" "snd r = Some err"
  shows "err = OverflowError \<or> err = ValueError"
  using assms
proof (induction rule: schedule.raw_induct [rotated 1, consumes 1, case_names step])
  case (step sched b e cur gap r)
  show ?case
  proof (cases "cur \<le> e")
    case False
    with step(2,3) show ?thesis by auto
  next
    case True
    show ?thesis
    proof (cases "date_add_timedelta cur gap")
      case (Inl x)
      then have "r = ([cur], Some x)" using step(2) True by simp
      then show ?thesis using date_add_timedelta_Inl [OF Inl] step(3) by auto
    next
      case (Inr nxt)
      show ?thesis
      proof (cases "py_mul gap b")
        case (Inl x)
        then have "r = ([cur], Some x)" using step(2) True Inr by simp
        then show ?thesis using py_mul_Inl [OF Inl] step(3) by auto
      next
        case gp: (Inr gap')
        from step(2) True Inr gp obtain r' where s: "sched b e nxt gap' = Some r'"
          and r: "r = (cur # fst r', snd r')"
          by (auto simp: bind_eq_Some_conv)
        from step(1) [OF s] r step(3) show ?thesis by simp
      qed
    qed
  qed
qed

lemma schedule_errors:
  assumes "schedule b e cur (PyInt 1) = Some (ds, Some err)"
  shows "err = OverflowError \<or> (err = ValueError \<and> b = PyFloat NaN)"
proof (cases b)
  case (PyInt j)
  from schedule_errors_int [OF assms PyInt refl] show ?thesis by simp
next
  case (PyFloat f)
  show ?thesis
  proof (cases "f = NaN")
    case True
    then show ?thesis using schedule_errors_any [OF assms] PyFloat by simp
  next
    case False
    from schedule_errors_float [OF assms PyFloat False] show ?thesis by simp
  qed
qed

text \<open>
  Claim C9. When \<^verbatim>\<open>add_multiple\<close> is called without a start date or with one that
  parses, its effect on the store is that of \<^verbatim>\<open>add_event\<close> on a list of valid dates,
  each passed as its ISO string. Every outcome of these calls is the added or the
  duplicate message for its date, and none is the invalid-date message. When the method
  returns its text, the text is these outcomes joined; the only other way for it to end
  is the \<^verbatim>\<open>OverflowError\<close> of the date arithmetic or, with the growth factor NaN alone,
  the \<^verbatim>\<open>ValueError\<close> of a \<^verbatim>\<open>timedelta\<close> of NaN days.
\<close>

theorem add_multiple_outcomes:
  assumes "valid_date today"
    and "case start of None \<Rightarrow> True | Some s \<Rightarrow> strptime_date s \<noteq> None"
    and "add_multiple today st ev b start = Some (r, st')"
  shows "\<exists>ds. (\<forall>d \<in> set ds. valid_date d)
           \<and> st' = snd (add_events st ds ev)
           \<and> list_all2 (\<lambda>d out. out = msg_added (isoformat d) ev
                                 \<or> out = msg_duplicate (isoformat d) ev)
                 ds (fst (add_events st ds ev))
           \<and> msg_invalid \<notin> set (fst (add_events st ds ev))
           \<and> (case r of
                 Inr text \<Rightarrow> text = join newline (fst (add_events st ds ev))
               | Inl e \<Rightarrow> e = OverflowError \<or> (e = ValueError \<and> b = PyFloat NaN))"
proof -
  obtain d0 where v0: "valid_date d0"
    and fr: "add_multiple_from st ev b d0 = Some (r, st')"
  proof (cases start)
    case None
    then show ?thesis using assms(1,3) that by (simp add: add_multiple_def)
  next
    case (Some s)
    then obtain d where d: "strptime_date s = Some d" using assms(2) by auto
    have "add_multiple_from st ev b d = Some (r, st')"
      using Some d assms(3) by (simp add: add_multiple_def)
    then show ?thesis using that [OF strptime_valid [OF d]] by blast
  qed
  have good: "(\<forall>d \<in> set ds. valid_date d) \<Longrightarrow>
      list_all2 (\<lambda>d out. out = msg_added (isoformat d) ev \<or> out = msg_duplicate (isoformat d) ev)
        ds (fst (add_events st ds ev))
      \<and> msg_invalid \<notin> set (fst (add_events st ds ev))" for ds
  proof -
    assume v: "\<forall>d \<in> set ds. valid_date d"
    note l = add_events_outcomes [OF v, of ev st]
    have "msg_invalid \<notin> set (fst (add_events st ds ev))"
      using l msg_invalid_distinct by (auto simp: list_all2_conv_all_nth in_set_conv_nth)
    then show ?thesis using l by simp
  qed
  show ?thesis
  proof (cases "date_add_days d0 (365 * 30)")
    case (Inl err)
    then have "r = Inl OverflowError" "st' = st"
      using fr date_add_days_Inl [OF Inl] by (simp_all add: add_multiple_from_def)
    then show ?thesis by (intro exI [of _ "[]"]) simp
  next
    case (Inr e)
    from fr Inr obtain x where lp: "add_multiple_loop ev b e d0 (PyInt 1) [] st = Some x"
      by (auto simp: add_multiple_from_def split: option.splits)
    from loop_Some_schedule [OF lp] obtain ds res where
      s: "schedule b e d0 (PyInt 1) = Some (ds, res)"
      by force
    from add_multiple_from_schedule [OF Inr s, of st ev] fr
    have r: "r = (case res of
                    None \<Rightarrow> Inr (join newline (fst (add_events st ds ev)))
                  | Some err \<Rightarrow> Inl err)"
      and st': "st' = snd (add_events st ds ev)"
      by simp_all
    have v: "\<forall>d \<in> set ds. valid_date d" using schedule_valid [OF s v0] by simp
    have er: "case r of
                 Inr tx \<Rightarrow> tx = join newline (fst (add_events st ds ev))
               | Inl e \<Rightarrow> e = OverflowError \<or> (e = ValueError \<and> b = PyFloat NaN)"
    proof (cases res)
      case None
      then show ?thesis using r by simp
    next
      case (Some err)
      then show ?thesis using r schedule_errors [of b e d0 ds err] s by simp
    qed
    show ?thesis
      using v st' good [OF v] er by (intro exI [of _ ds]) simp
  qed
qed

theorem add_multiple_outcomes_witness:
  "valid_date (2024, 6, 1)
   \<and> strptime_date ''2024-01-01'' \<noteq> None
   \<and> add_multiple (2024, 6, 1) \<lparr>calendar_db = [], db_file = None\<rparr> ''x'' (PyInt 11000)
         (Some ''2024-01-01'')
       = Some (Inr (msg_added ''2024-01-01'' ''x'' @ newline @ msg_added ''2024-01-02'' ''x''),
               \<lparr>calendar_db = [((2024, 1, 1), [''x'']), ((2024, 1, 2), [''x''])],
                db_file = Some [(''2024-01-01'', [''x'']), (''2024-01-02'', [''x''])]\<rparr>)
   \<and> (\<exists>ds. (\<forall>d \<in> set ds. valid_date d)
           \<and> msg_added ''2024-01-01'' ''x'' @ newline @ msg_added ''2024-01-02'' ''x''
               = join newline (fst (add_events \<lparr>calendar_db = [], db_file = None\<rparr> ds ''x''))
           \<and> list_all2 (\<lambda>d out. out = msg_added (isoformat d) ''x''
                                 \<or> out = msg_duplicate (isoformat d) ''x'')
                 ds (fst (add_events \<lparr>calendar_db = [], db_file = None\<rparr> ds ''x''))
           \<and> msg_invalid \<notin> set (fst (add_events \<lparr>calendar_db = [], db_file = None\<rparr> ds ''x'')))"
proof -
  have h1: "valid_date (2024, 6, 1)" by code_simp
  have h2: "strptime_date ''2024-01-01'' \<noteq> None" by code_simp
  have h2': "case Some ''2024-01-01'' of None \<Rightarrow> True | Some s \<Rightarrow> strptime_date s \<noteq> None"
    using h2 by simp
  have h3: "add_multiple (2024, 6, 1) \<lparr>calendar_db = [], db_file = None\<rparr> ''x'' (PyInt 11000)
         (Some ''2024-01-01'')
       = Some (Inr (msg_added ''2024-01-01'' ''x'' @ newline @ msg_added ''2024-01-02'' ''x''),
               \<lparr>calendar_db = [((2024, 1, 1), [''x'']), ((2024, 1, 2), [''x''])],
                db_file = Some [(''2024-01-01'', [''x'']), (''2024-01-02'', [''x''])]\<rparr>)"
    by code_simp
  from add_multiple_outcomes [OF h1 h2' h3]
  have c: "\<exists>ds. (\<forall>d \<in> set ds. valid_date d)
           \<and> msg_added ''2024-01-01'' ''x'' @ newline @ msg_added ''2024-01-02'' ''x''
               = join newline (fst (add_events \<lparr>calendar_db = [], db_file = None\<rparr> ds ''x''))
           \<and> list_all2 (\<lambda>d out. out = msg_added (isoformat d) ''x''
                                 \<or> out = msg_duplicate (isoformat d) ''x'')
                 ds (fst (add_events \<lparr>calendar_db = [], db_file = None\<rparr> ds ''x''))
           \<and> msg_invalid \<notin> set (fst (add_events \<lparr>calendar_db = [], db_file = None\<rparr> ds ''x''))"
    by (simp only: sum.case) blast
  show ?thesis by (intro conjI h1 h2 h3 c)
qed

subsection \<open>Saving and loading\<close>

lemma od_set_fresh: "k \<notin> set (map fst od) \<Longrightarrow> od_set od k v = od @ [(k, v)]"
  by (induction od) auto

lemma save_fold:
  assumes "distinct (map fst acc @ map (\<lambda>p. isoformat (fst p)) xs)"
  shows "foldl (\<lambda>db (d, events). od_set db (isoformat d) events) acc xs
           = acc @ map (\<lambda>(d, events). (isoformat d, events)) xs"
  using assms
proof (induction xs arbitrary: acc)
  case Nil
  then show ?case by simp
next
  case (Cons x xs)
  obtain d events where x: "x = (d, events)" by (cases x)
  have fresh: "isoformat d \<notin> set (map fst acc)" using Cons.prems by (auto simp: x)
  have "distinct (map fst (acc @ [(isoformat d, events)]) @ map (\<lambda>p. isoformat (fst p)) xs)"
    using Cons.prems by (auto simp: x)
  from Cons.IH [OF this] show ?case
    by (simp add: x od_set_fresh [OF fresh])
qed

lemma distinct_isoformat:
  assumes "distinct ks" "\<forall>k \<in> set ks. valid_date k"
  shows "distinct (map isoformat ks)"
proof -
  have "inj_on isoformat (set ks)"
    using assms(2) by (auto intro!: inj_onI dest: isoformat_inj)
  then show ?thesis using assms(1) by (simp add: distinct_map)
qed

lemma parse_keys_isoformat:
  "\<forall>k \<in> set ks. valid_date k \<Longrightarrow> parse_keys (map isoformat ks) = Inr ks"
  by (induction ks) (simp_all add: strptime_isoformat)

lemma fill_calendar_rebuild:
  assumes "distinct (map fst (pre @ post))"
    and "\<forall>p \<in> set post. map_of db (isoformat (fst p)) = Some (snd p)"
  shows "fill_calendar db (map fst post) pre = Inr (pre @ post)"
  using assms
proof (induction post arbitrary: pre)
  case Nil
  then show ?case by simp
next
  case (Cons p post)
  obtain d events where p: "p = (d, events)" by (cases p)
  have fresh: "d \<notin> set (map fst pre)" using Cons.prems(1) by (auto simp: p)
  have look: "map_of db (isoformat d) = Some events" using Cons.prems(2) by (simp add: p)
  have "distinct (map fst ((pre @ [(d, events)]) @ post))" using Cons.prems(1) by (simp add: p)
  from Cons.IH [OF this] Cons.prems(2)
  show ?case by (simp add: p look od_set_fresh [OF fresh])
qed

lemma save_load:
  assumes "sorted_wrt (<) (od_keys (calendar_db st))"
    and "\<forall>k \<in> set (od_keys (calendar_db st)). valid_date k"
  shows "load_calendar_db (db_file (save_calendar_db st)) = Inr (calendar_db st)"
proof -
  let ?cal = "calendar_db st"
  let ?db = "map (\<lambda>(d, events). (isoformat d, events)) ?cal"
  have dist: "distinct (map fst ?cal)" and sorted: "sorted (map fst ?cal)"
    using assms(1) by (simp_all add: strict_sorted_iff od_keys_def)
  have valid: "\<forall>k \<in> set (map fst ?cal). valid_date k" using assms(2) by (simp add: od_keys_def)
  have keys_db: "map fst ?db = map isoformat (map fst ?cal)"
    by (simp add: case_prod_beta comp_def)
  have dist_db: "distinct (map fst ?db)"
    unfolding keys_db by (rule distinct_isoformat [OF dist valid])
  have eq: "map (\<lambda>p. isoformat (fst p)) ?cal = map isoformat (map fst ?cal)"
    by (simp add: comp_def)
  have "distinct (map fst ([] :: json_db) @ map (\<lambda>p. isoformat (fst p)) ?cal)"
    unfolding eq list.map append_Nil by (rule distinct_isoformat [OF dist valid])
  from save_fold [OF this]
  have saved: "db_file (save_calendar_db st) = Some ?db"
    by (simp add: save_calendar_db_def)
  have parse: "parse_keys (od_keys ?db) = Inr (map fst ?cal)"
    unfolding od_keys_def keys_db by (rule parse_keys_isoformat [OF valid])
  have look: "\<forall>p \<in> set ?cal. map_of ?db (isoformat (fst p)) = Some (snd p)"
  proof
    fix p assume "p \<in> set ?cal"
    then have "(isoformat (fst p), snd p) \<in> set ?db" by (force simp: case_prod_beta)
    then show "map_of ?db (isoformat (fst p)) = Some (snd p)"
      using dist_db by (rule map_of_is_SomeI [rotated])
  qed
  have "fill_calendar ?db (map fst ?cal) [] = Inr ([] @ ?cal)"
    by (rule fill_calendar_rebuild) (use dist look in simp_all)
  then show ?thesis
    by (simp add: load_calendar_db_def saved parse sorted_sort_id [OF sorted])
qed

lemma fill_calendar_valid:
  assumes "fill_calendar db ds acc = Inr cal"
    and "\<forall>d \<in> set ds. valid_date d" "\<forall>k \<in> set (map fst acc). valid_date k"
  shows "\<forall>k \<in> set (map fst cal). valid_date k"
  using assms
proof (induction ds arbitrary: acc)
  case Nil
  then show ?case by simp
next
  case (Cons d ds)
  from Cons.prems(1) obtain events where
    rest: "fill_calendar db ds (od_set acc d events) = Inr cal"
    by (auto split: option.splits)
  have "\<forall>k \<in> set (map fst (od_set acc d events)). valid_date k"
    using Cons.prems(2,3) by (auto simp: keys_od_set)
  from Cons.IH [OF rest _ this] Cons.prems(2) show ?case by simp
qed

lemma parse_keys_valid: "parse_keys ks = Inr ds \<Longrightarrow> \<forall>d \<in> set ds. valid_date d"
  by (induction ks arbitrary: ds) (auto split: option.splits sum.splits dest: strptime_valid)

lemma load_valid:
  assumes "load_calendar_db file = Inr cal"
  shows "\<forall>k \<in> set (od_keys cal). valid_date k"
proof (cases "file")
  case None
  then show ?thesis using assms by (auto simp: load_calendar_db_def od_keys_def)
next
  case (Some db)
  with assms obtain dates where p: "parse_keys (od_keys db) = Inr dates"
    and f: "fill_calendar db (sort dates) [] = Inr cal"
    by (auto simp: load_calendar_db_def split: sum.splits)
  have "\<forall>d \<in> set (sort dates). valid_date d" using parse_keys_valid [OF p] by simp
  from fill_calendar_valid [OF f this] show ?thesis by (simp add: od_keys_def)
qed

lemma set_keys_od_set: "set (map fst (od_set od k v)) = insert k (set (map fst od))"
  by (auto simp: keys_od_set)

lemma set_keys_sort_key: "set (map fst (sort_key f xs)) = set (map fst xs)"
  by simp

lemma add_event_valid_keys:
  assumes "\<forall>k \<in> set (od_keys (calendar_db st)). valid_date k"
  shows "\<forall>k \<in> set (od_keys (calendar_db (snd (add_event st d e)))). valid_date k"
proof (cases "strptime_date d")
  case None
  then show ?thesis using assms by (simp add: add_event_def)
next
  case (Some dobj)
  note v = strptime_valid [OF Some]
  show ?thesis
  proof (cases "map_of (calendar_db st) dobj")
    case None
    then have "set (od_keys (calendar_db (snd (add_event st d e))))
                 = insert dobj (set (od_keys (calendar_db st)))"
      using Some
      by (simp add: add_event_def Let_def save_calendar_db_def od_keys_def set_keys_od_set
            set_keys_sort_key del: set_map)
    then show ?thesis using assms v by simp
  next
    case (Some events)
    then have "set (od_keys (calendar_db (snd (add_event st d e))))
                 \<subseteq> insert dobj (set (od_keys (calendar_db st)))"
      using \<open>strptime_date d = Some dobj\<close>
      by (simp add: add_event_def Let_def save_calendar_db_def od_keys_def set_keys_od_set
            set_keys_sort_key subset_insertI del: set_map)
    then show ?thesis using assms v by auto
  qed
qed

lemma cut_valid_keys:
  assumes "\<forall>k \<in> set (od_keys (calendar_db st)). valid_date k"
  shows "\<forall>k \<in> set (od_keys (calendar_db (snd (cut_events_before_date st c)))). valid_date k"
proof (cases "strptime_date c")
  case None
  then show ?thesis using assms by (simp add: cut_events_before_date_def)
next
  case (Some cd)
  show ?thesis using assms unfolding cut_calendar [OF Some] od_keys_def by auto
qed

lemma run_calls_valid_keys:
  "\<forall>k \<in> set (od_keys (calendar_db st)). valid_date k \<Longrightarrow>
   \<forall>k \<in> set (od_keys (calendar_db (run_calls st calls))). valid_date k"
  unfolding run_calls_def
proof (induction calls arbitrary: st)
  case Nil
  then show ?case by simp
next
  case (Cons c calls)
  have "\<forall>k \<in> set (od_keys (calendar_db (apply_call st c))). valid_date k"
  proof (cases c)
    case (AddEvent d e)
    show ?thesis
      unfolding AddEvent apply_call.simps by (rule add_event_valid_keys [OF Cons.prems])
  next
    case (CutEventsBeforeDate cd)
    show ?thesis
      unfolding CutEventsBeforeDate apply_call.simps by (rule cut_valid_keys [OF Cons.prems])
  qed
  then show ?case using Cons.IH by simp
qed

text \<open>
  Claim C7. For every state that a manager loaded from the database file reaches through
  \<^verbatim>\<open>add_event\<close> and \<^verbatim>\<open>cut_events_before_date\<close> calls, \<^verbatim>\<open>_save_calendar_db\<close> followed
  by \<^verbatim>\<open>_load_calendar_db\<close> succeeds and returns the calendar itself: the same dates in
  the same order, each with the same list of events in the same order.
\<close>

theorem save_load_roundtrip:
  assumes "init_manager file = Inr st0"
  shows "load_calendar_db (db_file (save_calendar_db (run_calls st0 calls)))
           = Inr (calendar_db (run_calls st0 calls))"
proof -
  from assms have l: "load_calendar_db file = Inr (calendar_db st0)"
    by (auto simp: init_manager_def split: sum.splits)
  have "sorted_wrt (<) (od_keys (calendar_db (run_calls st0 calls)))"
    using load_sorted [OF l] by (rule run_calls_sorted)
  moreover have "\<forall>k \<in> set (od_keys (calendar_db (run_calls st0 calls))). valid_date k"
    using load_valid [OF l] by (rule run_calls_valid_keys)
  ultimately show ?thesis by (rule save_load)
qed

theorem save_load_roundtrip_witness:
  "init_manager (Some [(''2024-03-01'', [''a'', ''b'']), (''2024-01-05'', [''c''])])
     = Inr \<lparr>calendar_db = [((2024, 1, 5), [''c'']), ((2024, 3, 1), [''a'', ''b''])],
            db_file = Some [(''2024-03-01'', [''a'', ''b'']), (''2024-01-05'', [''c''])]\<rparr>
   \<and> calendar_db (run_calls
        \<lparr>calendar_db = [((2024, 1, 5), [''c'']), ((2024, 3, 1), [''a'', ''b''])],
         db_file = Some [(''2024-03-01'', [''a'', ''b'']), (''2024-01-05'', [''c''])]\<rparr>
        [AddEvent ''2024-02-01'' ''d'', AddEvent ''2024-3-1'' ''e'',
         CutEventsBeforeDate ''2024-01-06''])
       = [((2024, 2, 1), [''d'']), ((2024, 3, 1), [''a'', ''b'', ''e''])]
   \<and> load_calendar_db (db_file (save_calendar_db (run_calls
        \<lparr>calendar_db = [((2024, 1, 5), [''c'']), ((2024, 3, 1), [''a'', ''b''])],
         db_file = Some [(''2024-03-01'', [''a'', ''b'']), (''2024-01-05'', [''c''])]\<rparr>
        [AddEvent ''2024-02-01'' ''d'', AddEvent ''2024-3-1'' ''e'',
         CutEventsBeforeDate ''2024-01-06''])))
       = Inr [((2024, 2, 1), [''d'']), ((2024, 3, 1), [''a'', ''b'', ''e''])]"
proof -
  have h: "init_manager (Some [(''2024-03-01'', [''a'', ''b'']), (''2024-01-05'', [''c''])])
     = Inr \<lparr>calendar_db = [((2024, 1, 5), [''c'']), ((2024, 3, 1), [''a'', ''b''])],
            db_file = Some [(''2024-03-01'', [''a'', ''b'']), (''2024-01-05'', [''c''])]\<rparr>"
    by code_simp
  have k: "calendar_db (run_calls
        \<lparr>calendar_db = [((2024, 1, 5), [''c'']), ((2024, 3, 1), [''a'', ''b''])],
         db_file = Some [(''2024-03-01'', [''a'', ''b'']), (''2024-01-05'', [''c''])]\<rparr>
        [AddEvent ''2024-02-01'' ''d'', AddEvent ''2024-3-1'' ''e'',
         CutEventsBeforeDate ''2024-01-06''])
       = [((2024, 2, 1), [''d'']), ((2024, 3, 1), [''a'', ''b'', ''e''])]"
    by code_simp
  show ?thesis
    using h k save_load_roundtrip [OF h, of "[AddEvent ''2024-02-01'' ''d'',
      AddEvent ''2024-3-1'' ''e'', CutEventsBeforeDate ''2024-01-06'']"]
    by (simp only: simp_thms)
qed

end
